theory Spec2Isabelle
  imports Complex_Main
begin

section \<open>Data model\<close>

text \<open>
  The route planner of \<^verbatim>\<open>nav2_route\<close> works on a graph stored as a vector of nodes.
  Every node owns the vector of its outgoing edges, and every edge points back to its
  start node and forward to its end node. Pointers into the graph are modelled as
  indices into the node list (\<^verbatim>\<open>graph.at(i)\<close> is the node at index \<open>i\<close>), pointers to
  edges as the edge value itself: the search never changes an edge, only the search
  state of the nodes.

  Numbers: node and edge ids are \<^verbatim>\<open>unsigned int\<close> and are only ever compared, so they
  are natural numbers. Costs are \<^verbatim>\<open>float\<close> in the source. A finite float is taken as the
  real number it denotes; the cost of an edge and the score of a plugin are finite. The
  search adds costs: its sums are rounded to the nearest float, and a sum beyond the
  range of \<^verbatim>\<open>float\<close> is an infinity (section ``Sums of costs''). Comparisons of floats
  are exact. The arithmetic of the costmap scorer, a product and a quotient, is kept
  exact.
\<close>

record EdgeCost =
  cost :: real
  overridable :: bool

record Edge =
  edgeid :: nat
  edge_start :: nat
  edge_end :: nat
  edge_cost :: EdgeCost

text \<open>
  Modelled from the spec: \<^verbatim>\<open>SearchState\<close> is declared in \<^verbatim>\<open>types.hpp\<close>, which is not
  among the sources. The spec gives its three fields and their initial values:
  \<open>integrated_cost\<close> starts at plus infinity and \<open>parent_edge\<close> at no edge.
\<close>

text \<open>
  A cost held by the search: a finite float, plus infinity or minus infinity. No other
  value arises: the search only adds a finite score to a cost.
\<close>

datatype ecost = Fin real | PInf | NInf

record SearchState =
  parent_edge :: "Edge option"
  integrated_cost :: ecost
  traversal_cost :: real

definition reset :: "SearchState \<Rightarrow> SearchState" where
  "reset s = \<lparr>parent_edge = None, integrated_cost = PInf, traversal_cost = 0\<rparr>"

text \<open>The comparison \<open><\<close> of two costs.\<close>

fun cost_less :: "ecost \<Rightarrow> ecost \<Rightarrow> bool" where
  "cost_less (Fin c) (Fin d) = (c < d)"
| "cost_less (Fin c) PInf = True"
| "cost_less (Fin c) NInf = False"
| "cost_less PInf d = False"
| "cost_less NInf NInf = False"
| "cost_less NInf (Fin d) = True"
| "cost_less NInf PInf = True"

section \<open>Sums of costs\<close>

text \<open>
  The type \<^verbatim>\<open>float\<close> is the binary format of 32 bits: its finite values are the numbers
  \<open>m * 2 ^ e\<close> with an integer \<open>m\<close> of magnitude below \<open>2 ^ 24\<close> and an exponent \<open>e\<close> from
  \<open>-149\<close> to \<open>104\<close>. The sum of two floats is the float nearest to the exact sum, the one
  with the even \<open>m\<close> when two are equally near, and an infinity when that float would be
  of magnitude \<open>2 ^ 128\<close> or more.

  \<open>round_even\<close> rounds a real number to the nearest integer, a half to the even one.
  \<open>float_exponent x\<close> is the exponent \<open>e\<close> of the floats around \<open>x\<close>: the least one from
  \<open>-149\<close> with \<open>\<bar>x\<bar> < 2 ^ (e + 24)\<close>.
\<close>

definition round_even :: "real \<Rightarrow> int" where
  "round_even y =
     (if y - of_int \<lfloor>y\<rfloor> < 1 / 2 then \<lfloor>y\<rfloor>
      else if 1 / 2 < y - of_int \<lfloor>y\<rfloor> then \<lfloor>y\<rfloor> + 1
      else if even \<lfloor>y\<rfloor> then \<lfloor>y\<rfloor> else \<lfloor>y\<rfloor> + 1)"

definition float_exponent :: "real \<Rightarrow> int" where
  "float_exponent x =
     (case find (\<lambda>e. \<bar>x\<bar> < 2 powi (e + 24)) [- 149..104] of Some e \<Rightarrow> e | None \<Rightarrow> 105)"

definition float_round :: "real \<Rightarrow> ecost" where
  "float_round x =
     (let r = of_int (round_even (x / 2 powi float_exponent x)) * 2 powi float_exponent x in
      if 2 ^ 128 \<le> r then PInf else if r \<le> - (2 ^ 128) then NInf else Fin r)"

text \<open>\<open>curr_cost + traversal_cost\<close>: a cost plus a finite score.\<close>

fun float_add :: "ecost \<Rightarrow> real \<Rightarrow> ecost" where
  "float_add (Fin a) t = float_round (a + t)"
| "float_add PInf t = PInf"
| "float_add NInf t = NInf"

record Coordinates =
  coords_x :: real
  coords_y :: real

record Node =
  nodeid :: nat
  coords :: Coordinates
  neighbors :: "Edge list"
  search_state :: SearchState

type_synonym Graph = "Node list"

record Route =
  start_node :: nat
  edges :: "Edge list"
  route_cost :: ecost

datatype error = NoValidGraph | NoValidRouteCouldBeFound | TimedOut | OutOfRange

section \<open>The closure and penalty scorer\<close>

record AdjustEdgesScorer =
  closed_edges :: "nat set"
  dynamic_penalties :: "nat \<rightharpoonup> real"

record AdjustEdgesRequest =
  request_closed_edges :: "nat list"
  request_opened_edges :: "nat list"
  request_adjust_edges :: "(nat \<times> real) list"

record AdjustEdgesResponse =
  success :: bool

text \<open>
  \<^verbatim>\<open>AdjustEdgesScorer::closedEdgesCb\<close>: three loops in sequence, over the closed ids,
  the opened ids and the cost adjustments, then the response is set to success.
\<close>

definition closedEdgesCb ::
  "AdjustEdgesScorer \<Rightarrow> AdjustEdgesRequest \<Rightarrow> AdjustEdgesScorer \<times> AdjustEdgesResponse" where
  "closedEdgesCb sc request =
     (let c1 = fold (\<lambda>e s. insert e s) (request_closed_edges request) (closed_edges sc);
          c2 = fold (\<lambda>e s. if e \<in> s then s - {e} else s) (request_opened_edges request) c1;
          p = fold (\<lambda>a m. m(fst a \<mapsto> snd a)) (request_adjust_edges request) (dynamic_penalties sc)
      in (\<lparr>closed_edges = c2, dynamic_penalties = p\<rparr>, \<lparr>success = True\<rparr>))"

text \<open>
  \<^verbatim>\<open>AdjustEdgesScorer::score\<close>: the cost is an in-out parameter; the model takes the
  caller's value and returns the validity flag with the value after the call.
\<close>

definition AdjustEdgesScorer_score :: "AdjustEdgesScorer \<Rightarrow> Edge \<Rightarrow> real \<Rightarrow> bool \<times> real" where
  "AdjustEdgesScorer_score sc edge c =
     (if edgeid edge \<in> closed_edges sc then (False, c)
      else case dynamic_penalties sc (edgeid edge) of
             Some v \<Rightarrow> (True, v)
           | None \<Rightarrow> (True, c))"

section \<open>The costmap scorer\<close>

text \<open>
  The costmap and the line iterator belong to other packages. A costmap is taken as
  its two operations: \<^verbatim>\<open>worldToMap\<close>, which fails for a point off the map, and
  \<^verbatim>\<open>getCost\<close>, which reads a cell (an \<^verbatim>\<open>unsigned char\<close>). The line iterator is taken
  as the function that lists the cells it visits between two cells.
\<close>

record Costmap2D =
  worldToMap :: "real \<Rightarrow> real \<Rightarrow> (nat \<times> nat) option"
  getCost :: "nat \<Rightarrow> nat \<Rightarrow> nat"

record CostmapScorer =
  costmap :: "Costmap2D option"
  use_max :: bool
  invalid_on_collision :: bool
  invalid_off_map :: bool
  max_cost :: real
  weight :: real

text \<open>
  The body of the \<^verbatim>\<open>for\<close> loop of \<^verbatim>\<open>CostmapScorer::score\<close> over the cells of the
  line, on the triple (\<open>largest_cost\<close>, \<open>running_cost\<close>, \<open>idx\<close>); \<open>None\<close> is the
  \<^verbatim>\<open>return false\<close> inside the loop.
\<close>

fun line_walk ::
  "CostmapScorer \<Rightarrow> Costmap2D \<Rightarrow> (nat \<times> nat) list \<Rightarrow> real \<times> real \<times> nat \<Rightarrow> (real \<times> real \<times> nat) option" where
  "line_walk sc cm [] acc = Some acc"
| "line_walk sc cm (cell # cells) (largest_cost, running_cost, idx) =
     (let point_cost = real (getCost cm (fst cell) (snd cell)) in
      if point_cost \<ge> max_cost sc \<and> max_cost sc \<noteq> 255 \<and> invalid_on_collision sc then None
      else line_walk sc cm cells
             (if largest_cost < point_cost \<and> point_cost \<noteq> 255 then point_cost else largest_cost,
              running_cost + point_cost, idx + 1))"

text \<open>
  \<^verbatim>\<open>CostmapScorer::score\<close>. The division of the mean by \<open>idx = 0\<close> cannot happen: a
  line has at least one cell.
\<close>

definition CostmapScorer_score ::
  "CostmapScorer \<Rightarrow> (nat \<Rightarrow> nat \<Rightarrow> nat \<Rightarrow> nat \<Rightarrow> (nat \<times> nat) list) \<Rightarrow> Graph \<Rightarrow> Edge \<Rightarrow> real
     \<Rightarrow> bool \<times> real" where
  "CostmapScorer_score sc LineIterator g edge c =
     (case costmap sc of
        None \<Rightarrow> (False, c)
      | Some cm \<Rightarrow>
         (case worldToMap cm (coords_x (coords (g ! edge_start edge)))
                             (coords_y (coords (g ! edge_start edge))) of
            None \<Rightarrow> (if invalid_off_map sc then (False, c) else (True, c))
          | Some p0 \<Rightarrow>
             (case worldToMap cm (coords_x (coords (g ! edge_end edge)))
                                 (coords_y (coords (g ! edge_end edge))) of
                None \<Rightarrow> (if invalid_off_map sc then (False, c) else (True, c))
              | Some p1 \<Rightarrow>
                 (case line_walk sc cm (LineIterator (fst p0) (snd p0) (fst p1) (snd p1)) (0, 0, 0) of
                    None \<Rightarrow> (False, c)
                  | Some (largest_cost, running_cost, idx) \<Rightarrow>
                      (if use_max sc then (True, weight sc * largest_cost / max_cost sc)
                       else (True, weight sc * running_cost / (real idx * max_cost sc)))))))"

section \<open>The route planner\<close>

text \<open>
  The edge scorer (\<^verbatim>\<open>EdgeScorer\<close>) has only its header among the sources: it is taken
  as the number of its plugins and its scoring function, from an edge and the caller's
  value of the in-out score to the validity flag and the score after the call.
\<close>

record EdgeScorer =
  numPlugins :: int
  EdgeScorer_score :: "Edge \<Rightarrow> real \<Rightarrow> bool \<times> real"

type_synonym NodeElement = "ecost \<times> nat"
type_synonym NodeQueue = "NodeElement list"

text \<open>
  Modelled from the spec: the queue type and its comparator are declared in
  \<^verbatim>\<open>types.hpp\<close>, which is not among the sources. The spec says that the schedule pops
  a lowest-cost element and breaks ties arbitrarily. The queue is the list of its
  elements, and the planner carries the function \<open>queue_top\<close> that gives the position
  of the element popped next; \<open>lowest_first\<close> says that it picks a lowest cost.

  The members of the planner are the bound \<open>max_iterations\<close>, the edge scorer and the
  schedule \<open>queue\<close>, which lives from one search to the next. The member \<open>goal_id\<close> is
  set at the start of every search and read in that search only: it is passed as an
  argument.
\<close>

record RoutePlanner =
  max_iterations :: int
  edge_scorer :: EdgeScorer
  queue_top :: "NodeQueue \<Rightarrow> nat"
  queue :: NodeQueue

definition lowest_first :: "(NodeQueue \<Rightarrow> nat) \<Rightarrow> bool" where
  "lowest_first pick =
     (\<forall>q. q \<noteq> [] \<longrightarrow> pick q < length q \<and> (\<forall>x \<in> set q. \<not> cost_less (fst x) (fst (q ! pick q))))"

text \<open>One such order: the first element of lowest cost.\<close>

fun first_min :: "NodeQueue \<Rightarrow> nat" where
  "first_min [] = 0"
| "first_min [x] = 0"
| "first_min (x # y # q) =
     (if cost_less (fst ((y # q) ! first_min (y # q))) (fst x) then Suc (first_min (y # q)) else 0)"

definition INT_MAX :: int where
  "INT_MAX = 2147483647"

text \<open>
  \<^verbatim>\<open>RoutePlanner::configure\<close>, given the value of the parameter \<^verbatim>\<open>max_iterations\<close>.
  The schedule of a new planner is empty.
\<close>

definition configure :: "int \<Rightarrow> EdgeScorer \<Rightarrow> (NodeQueue \<Rightarrow> nat) \<Rightarrow> RoutePlanner" where
  "configure param scorer pick =
     \<lparr>max_iterations = (if param = 0 then INT_MAX else param),
      edge_scorer = scorer, queue_top = pick, queue = []\<rparr>"

definition isGoal :: "nat \<Rightarrow> Node \<Rightarrow> bool" where
  "isGoal goal_id node = (nodeid node = goal_id)"

definition getNextNode :: "(NodeQueue \<Rightarrow> nat) \<Rightarrow> NodeQueue \<Rightarrow> NodeElement \<times> NodeQueue" where
  "getNextNode pick q = (q ! pick q, take (pick q) q @ drop (Suc (pick q)) q)"

definition addNode :: "ecost \<Rightarrow> nat \<Rightarrow> NodeQueue \<Rightarrow> NodeQueue" where
  "addNode c node q = q @ [(c, node)]"

definition clearQueue :: "NodeQueue \<Rightarrow> NodeQueue" where
  "clearQueue q = []"

definition resetSearchStates :: "Graph \<Rightarrow> Graph" where
  "resetSearchStates g = map (\<lambda>n. n\<lparr>search_state := reset (search_state n)\<rparr>) g"

text \<open>
  \<^verbatim>\<open>RoutePlanner::getTraversalCost\<close>: \<open>score\<close> is the caller's value of the in-out
  parameter. The result is the exception, or the flag with the score after the call.
\<close>

definition getTraversalCost ::
  "RoutePlanner \<Rightarrow> nat \<Rightarrow> Graph \<Rightarrow> Edge \<Rightarrow> real \<Rightarrow> nat list \<Rightarrow> error + bool \<times> real" where
  "getTraversalCost rp goal_id g edge score blocked_ids =
     (if list_ex (\<lambda>i. i = edgeid edge \<or> i = nodeid (g ! edge_end edge)) blocked_ids
         \<and> \<not> isGoal goal_id (g ! edge_end edge)
      then Inr (False, score)
      else if \<not> overridable (edge_cost edge) \<or> numPlugins (edge_scorer rp) = 0
      then (if cost (edge_cost edge) = 0 then Inl NoValidGraph
            else Inr (True, cost (edge_cost edge)))
      else Inr (EdgeScorer_score (edge_scorer rp) edge score))"

text \<open>
  The body of the \<^verbatim>\<open>for\<close> loop of \<^verbatim>\<open>findShortestGraphTraversal\<close> for one edge of the
  node being expanded. The state is the graph (the search states of the nodes), the
  queue and the local variable \<open>traversal_cost\<close>, which keeps its value from one edge
  to the next. An edge that is not valid is skipped (\<^verbatim>\<open>continue\<close>); an exception of
  \<open>getTraversalCost\<close> leaves the loop, and the search, with the schedule as it is at
  that moment: the exception is returned with that schedule.
\<close>

definition relax_edge ::
  "RoutePlanner \<Rightarrow> nat \<Rightarrow> nat list \<Rightarrow> ecost \<Rightarrow> Edge \<Rightarrow> Graph \<times> NodeQueue \<times> real
     \<Rightarrow> error \<times> NodeQueue + Graph \<times> NodeQueue \<times> real" where
  "relax_edge rp goal_id blocked_ids curr_cost edge s =
     (case s of (g, q, tc) \<Rightarrow>
        (case getTraversalCost rp goal_id g edge tc blocked_ids of
           Inl err \<Rightarrow> Inl (err, q)
         | Inr (valid, tc') \<Rightarrow>
             if \<not> valid then Inr (g, q, tc')
             else if cost_less (float_add curr_cost tc')
                       (integrated_cost (search_state (g ! edge_end edge)))
             then Inr (g[edge_end edge := (g ! edge_end edge)
                          \<lparr>search_state := \<lparr>parent_edge = Some edge,
                                            integrated_cost = float_add curr_cost tc',
                                            traversal_cost = tc'\<rparr>\<rparr>],
                       addNode (float_add curr_cost tc') (edge_end edge) q, tc')
             else Inr (g, q, tc')))"

text \<open>The \<^verbatim>\<open>for\<close> loop over the edges of the node.\<close>

fun expand_edges ::
  "RoutePlanner \<Rightarrow> nat \<Rightarrow> nat list \<Rightarrow> ecost \<Rightarrow> Edge list \<Rightarrow> Graph \<times> NodeQueue \<times> real
     \<Rightarrow> error \<times> NodeQueue + Graph \<times> NodeQueue \<times> real" where
  "expand_edges rp goal_id blocked_ids curr_cost [] s = Inr s"
| "expand_edges rp goal_id blocked_ids curr_cost (edge # es) s =
     (case relax_edge rp goal_id blocked_ids curr_cost edge s of
        Inl err \<Rightarrow> Inl err
      | Inr s' \<Rightarrow> expand_edges rp goal_id blocked_ids curr_cost es s')"

text \<open>
  The \<^verbatim>\<open>while\<close> loop of \<^verbatim>\<open>findShortestGraphTraversal\<close>. The result is the exception
  of an expansion with the schedule it leaves, or the iteration counter with the state at
  the exit of the loop.
  The counter is an \<^verbatim>\<open>int\<close>; it cannot overflow, since it is incremented only below
  \<open>max_iterations\<close>.
\<close>

function search_loop ::
  "RoutePlanner \<Rightarrow> nat \<Rightarrow> nat list \<Rightarrow> int \<Rightarrow> Graph \<times> NodeQueue \<times> real
     \<Rightarrow> error \<times> NodeQueue + int \<times> Graph \<times> NodeQueue \<times> real" where
  "search_loop rp goal_id blocked_ids iterations (g, q, tc) =
     (if q \<noteq> [] \<and> iterations < max_iterations rp then
        (if fst (fst (getNextNode (queue_top rp) q))
              \<noteq> integrated_cost (search_state (g ! snd (fst (getNextNode (queue_top rp) q))))
         then search_loop rp goal_id blocked_ids (iterations + 1)
                (g, snd (getNextNode (queue_top rp) q), tc)
         else if isGoal goal_id (g ! snd (fst (getNextNode (queue_top rp) q)))
         then Inr (iterations + 1, g, snd (getNextNode (queue_top rp) q), tc)
         else (case expand_edges rp goal_id blocked_ids (fst (fst (getNextNode (queue_top rp) q)))
                      (neighbors (g ! snd (fst (getNextNode (queue_top rp) q))))
                      (g, snd (getNextNode (queue_top rp) q), tc) of
                 Inl err \<Rightarrow> Inl err
               | Inr s \<Rightarrow> search_loop rp goal_id blocked_ids (iterations + 1) s))
      else Inr (iterations, g, q, tc))"
  by pat_completeness auto
termination
  by (relation "measure (\<lambda>(rp, goal_id, blocked_ids, iterations, s). nat (max_iterations rp - iterations))")
     auto

declare search_loop.simps [simp del]

text \<open>
  \<^verbatim>\<open>RoutePlanner::findShortestGraphTraversal\<close>. The start node is added to the schedule
  that the planner holds when the search begins. \<open>clearQueue\<close> is called after the loop,
  so an exception raised inside the loop leaves the schedule of that moment in the
  planner. The result is the exception or the graph with the search states of the
  finished search, and the schedule that the planner holds afterwards.
\<close>

definition findShortestGraphTraversal ::
  "RoutePlanner \<Rightarrow> Graph \<Rightarrow> nat \<Rightarrow> nat \<Rightarrow> nat list \<Rightarrow> (error + Graph) \<times> NodeQueue" where
  "findShortestGraphTraversal rp graph start goal blocked_ids =
     (let g0 = resetSearchStates graph;
          goal_id = nodeid (g0 ! goal);
          g1 = g0[start := (g0 ! start)
                    \<lparr>search_state := (search_state (g0 ! start))\<lparr>integrated_cost := Fin 0\<rparr>\<rparr>]
      in case search_loop rp goal_id blocked_ids 0 (g1, addNode (Fin 0) start (queue rp), 0) of
           Inl (err, q) \<Rightarrow> (Inl err, q)
         | Inr (iterations, g, q, tc) \<Rightarrow>
             (if iterations \<ge> max_iterations rp then Inl TimedOut else Inr g, clearQueue q))"

text \<open>
  The backtracking loop of \<^verbatim>\<open>findRoute\<close>. In the source \<open>parent_edge\<close> is a reference
  to the field of the goal node, so every step of the loop writes that field; the loop
  reads it from the graph and stores it there. The loop runs forever on a cycle of
  parent edges: the result \<open>None\<close> stands for a loop that does not return.
\<close>

partial_function (option) backtrack :: "nat \<Rightarrow> Graph \<Rightarrow> Edge list \<Rightarrow> (Graph \<times> Edge list) option" where
  "backtrack goal g acc =
     (case parent_edge (search_state (g ! goal)) of
        None \<Rightarrow> Some (g, acc)
      | Some pe \<Rightarrow>
          backtrack goal
            (g[goal := (g ! goal)\<lparr>search_state := (search_state (g ! goal))
                 \<lparr>parent_edge := parent_edge (search_state (g ! edge_start pe))\<rparr>\<rparr>])
            (acc @ [pe]))"

text \<open>
  \<^verbatim>\<open>RoutePlanner::findRoute\<close>. \<^verbatim>\<open>graph.at\<close> raises for an index out of range. The
  result is the exception or the route, with the planner after the call; the search
  states left in the graph are not returned, since the next search resets them.
\<close>

definition findRoute ::
  "RoutePlanner \<Rightarrow> Graph \<Rightarrow> nat \<Rightarrow> nat \<Rightarrow> nat list \<Rightarrow> ((error + Route) \<times> RoutePlanner) option" where
  "findRoute rp graph start goal blocked_ids =
     (if graph = [] then Some (Inl NoValidGraph, rp)
      else if \<not> start < length graph \<or> \<not> goal < length graph then Some (Inl OutOfRange, rp)
      else case findShortestGraphTraversal rp graph start goal blocked_ids of
             (Inl err, q) \<Rightarrow> Some (Inl err, rp\<lparr>queue := q\<rparr>)
           | (Inr g, q) \<Rightarrow>
               if parent_edge (search_state (g ! goal)) = None
               then Some (Inl NoValidRouteCouldBeFound, rp\<lparr>queue := q\<rparr>)
               else (case backtrack goal g [] of
                       None \<Rightarrow> None
                     | Some (g', es) \<Rightarrow>
                         Some (Inr \<lparr>start_node = start, edges = rev es,
                                    route_cost = integrated_cost (search_state (g' ! goal))\<rparr>,
                               rp\<lparr>queue := q\<rparr>)))"

section \<open>Well-formed graphs\<close>

text \<open>
  The pointers of the edges are valid: every edge in the vector of a node has that node
  as its start and a node of the graph as its end.
\<close>

definition well_formed :: "Graph \<Rightarrow> bool" where
  "well_formed g =
     list_all (\<lambda>(i, n). list_all (\<lambda>e. edge_start e = i \<and> edge_end e < length g) (neighbors n))
       (enumerate 0 g)"

text \<open>The parts of a graph that a search does not change.\<close>

definition topology :: "Graph \<Rightarrow> (nat \<times> Edge list) list" where
  "topology g = map (\<lambda>n. (nodeid n, neighbors n)) g"

section \<open>Notions used in the proofs\<close>

text \<open>The element that \<open>getNextNode\<close> pops from a queue, and the queue it leaves.\<close>

definition popped :: "RoutePlanner \<Rightarrow> NodeQueue \<Rightarrow> NodeElement" where
  "popped rp q = fst (getNextNode (queue_top rp) q)"

definition rest :: "RoutePlanner \<Rightarrow> NodeQueue \<Rightarrow> NodeQueue" where
  "rest rp q = snd (getNextNode (queue_top rp) q)"

text \<open>Every parent edge recorded in the graph has the property \<open>P\<close>.\<close>

definition parents_satisfy :: "(Edge \<Rightarrow> bool) \<Rightarrow> Graph \<Rightarrow> bool" where
  "parents_satisfy P g = (\<forall>n \<in> set g. \<forall>e. parent_edge (search_state n) = Some e \<longrightarrow> P e)"

text \<open>The id of the edge or the id of its end node is in the list of blocked ids.\<close>

definition vetoed :: "Graph \<Rightarrow> nat list \<Rightarrow> Edge \<Rightarrow> bool" where
  "vetoed g bl e = (edgeid e \<in> set bl \<or> nodeid (g ! edge_end e) \<in> set bl)"

definition search_inv :: "Graph \<Rightarrow> (Edge \<Rightarrow> bool) \<Rightarrow> Graph \<Rightarrow> NodeQueue \<Rightarrow> bool" where
  "search_inv g0 P g q =
     (topology g = topology g0 \<and> (\<forall>x \<in> set q. snd x < length g0) \<and> parents_satisfy P g)"

definition route_edge_ok :: "Graph \<Rightarrow> nat list \<Rightarrow> nat \<Rightarrow> Edge \<Rightarrow> bool" where
  "route_edge_ok g0 bl gid e =
     (edge_start e < length g0 \<and> edge_end e < length g0
      \<and> (vetoed g0 bl e \<longrightarrow> nodeid (g0 ! edge_end e) = gid))"

section \<open>Paths and the invariant of the search\<close>

text \<open>The search state of a node, by its index.\<close>

definition cost_at :: "Graph \<Rightarrow> nat \<Rightarrow> ecost" where
  "cost_at g u = integrated_cost (search_state (g ! u))"

definition parent :: "Graph \<Rightarrow> nat \<Rightarrow> Edge option" where
  "parent g u = parent_edge (search_state (g ! u))"

text \<open>The update of the neighbor's search state in the loop body.\<close>

definition set_parent :: "Graph \<Rightarrow> nat \<Rightarrow> Edge \<Rightarrow> real \<Rightarrow> real \<Rightarrow> Graph" where
  "set_parent g v e p t =
     g[v := (g ! v)\<lparr>search_state :=
              \<lparr>parent_edge = Some e, integrated_cost = Fin p, traversal_cost = t\<rparr>\<rparr>]"

text \<open>The cost is finite and at most the real bound \<open>r\<close>.\<close>

fun cost_le :: "ecost \<Rightarrow> real \<Rightarrow> bool" where
  "cost_le (Fin c) r = (c \<le> r)"
| "cost_le PInf r = False"
| "cost_le NInf r = False"

text \<open>
  A path from node \<open>u\<close> to node \<open>v\<close>: a list of edges, each taken from the vector of the
  node reached so far. The cost of a path is the sum of the prices \<open>w\<close> of its edges.
\<close>

fun is_path :: "Graph \<Rightarrow> nat \<Rightarrow> Edge list \<Rightarrow> nat \<Rightarrow> bool" where
  "is_path g u [] v = (u = v)"
| "is_path g u (e # es) v =
     (u < length g \<and> e \<in> set (neighbors (g ! u)) \<and> is_path g (edge_end e) es v)"

definition path_cost :: "(Edge \<Rightarrow> real) \<Rightarrow> Edge list \<Rightarrow> real" where
  "path_cost w es = sum_list (map w es)"

text \<open>
  The graph of the edges that the pricing accepts: \<open>ok e\<close> says that the edge \<open>e\<close> is
  priced as valid. A traversable path is a path of this graph.
\<close>

definition traversable :: "(Edge \<Rightarrow> bool) \<Rightarrow> Graph \<Rightarrow> Graph" where
  "traversable ok g = map (\<lambda>n. n\<lparr>neighbors := filter ok (neighbors n)\<rparr>) g"

text \<open>An edge that leaves a node which a path from \<open>s\<close> reaches.\<close>

definition reachable_edge :: "Graph \<Rightarrow> nat \<Rightarrow> Edge \<Rightarrow> bool" where
  "reachable_edge g s e =
     (\<exists>u es. is_path g s es u \<and> u < length g \<and> e \<in> set (neighbors (g ! u)))"

text \<open>
  Every edge that the search from \<open>s\<close> can meet, an edge that leaves a node at the end of
  a traversable path from \<open>s\<close>, is priced by \<open>getTraversalCost\<close> in the same way whatever
  the value of the score before the call: as valid at the cost \<open>w e\<close>, which is not
  negative, if \<open>ok e\<close>, and as not valid otherwise.
\<close>

definition priced ::
  "RoutePlanner \<Rightarrow> nat \<Rightarrow> Graph \<Rightarrow> nat \<Rightarrow> (Edge \<Rightarrow> bool) \<Rightarrow> (Edge \<Rightarrow> real) \<Rightarrow> bool" where
  "priced rp goal_id g s ok w =
     (\<forall>u es e. is_path (traversable ok g) s es u \<and> u < length g \<and> e \<in> set (neighbors (g ! u))
        \<longrightarrow> (\<forall>sc. if ok e
                  then 0 \<le> w e \<and> getTraversalCost rp goal_id g e sc [] = Inr (True, w e)
                  else (\<exists>sc'. getTraversalCost rp goal_id g e sc [] = Inr (False, sc'))))"

text \<open>The price of an edge that is priced by its static cost.\<close>

definition static_price :: "Edge \<Rightarrow> real" where
  "static_price e = cost (edge_cost e)"

text \<open>The number of edges of the graph.\<close>

definition num_edges :: "Graph \<Rightarrow> nat" where
  "num_edges g = length (concat (map neighbors g))"

text \<open>
  The nodes that have been expanded: their cost is finite and the queue holds no element
  with that cost for them.
\<close>

definition expanded :: "Graph \<Rightarrow> NodeQueue \<Rightarrow> nat set" where
  "expanded g q = {b. b < length g \<and> (\<exists>c. cost_at g b = Fin c \<and> (Fin c, b) \<notin> set q)}"

definition queue_ok :: "Graph \<Rightarrow> NodeQueue \<Rightarrow> bool" where
  "queue_ok g q =
     (distinct q
      \<and> (\<forall>x \<in> set q. snd x < length g
            \<and> (\<exists>c. fst x = Fin c \<and> 0 \<le> c \<and> cost_le (cost_at g (snd x)) c)))"

definition realised :: "Graph \<Rightarrow> (Edge \<Rightarrow> real) \<Rightarrow> nat \<Rightarrow> Graph \<Rightarrow> bool" where
  "realised g0 w s g =
     (\<forall>u < length g0. \<forall>c. cost_at g u = Fin c \<longrightarrow> (\<exists>es. is_path g0 s es u \<and> path_cost w es = c))"

definition optimal :: "Graph \<Rightarrow> (Edge \<Rightarrow> real) \<Rightarrow> nat \<Rightarrow> nat \<Rightarrow> real \<Rightarrow> bool" where
  "optimal g0 w s u c = (\<forall>es. is_path g0 s es u \<longrightarrow> c \<le> path_cost w es)"

text \<open>
  The sums that the search forms are exact: the float sum of the cost of a cheapest path
  from \<open>s\<close> to a node and the price of an edge that leaves this node is their sum.
\<close>

definition exact_sums :: "Graph \<Rightarrow> nat \<Rightarrow> (Edge \<Rightarrow> real) \<Rightarrow> bool" where
  "exact_sums g s w =
     (\<forall>u es e. is_path g s es u \<and> optimal g w s u (path_cost w es)
          \<and> u < length g \<and> e \<in> set (neighbors (g ! u))
        \<longrightarrow> float_add (Fin (path_cost w es)) (w e) = Fin (path_cost w es + w e))"

definition expanded_opt :: "Graph \<Rightarrow> (Edge \<Rightarrow> real) \<Rightarrow> nat \<Rightarrow> Graph \<Rightarrow> NodeQueue \<Rightarrow> bool" where
  "expanded_opt g0 w s g q =
     (\<forall>b \<in> expanded g q. \<forall>c. cost_at g b = Fin c \<longrightarrow> optimal g0 w s b c)"

definition relaxed :: "Graph \<Rightarrow> (Edge \<Rightarrow> real) \<Rightarrow> Graph \<Rightarrow> NodeQueue \<Rightarrow> Edge list \<Rightarrow> bool" where
  "relaxed g0 w g q rem =
     (\<forall>b \<in> expanded g q. \<forall>c. cost_at g b = Fin c \<longrightarrow>
        (\<forall>e \<in> set (neighbors (g0 ! b)). cost_le (cost_at g (edge_end e)) (c + w e) \<or> e \<in> set rem))"

definition parents_ok :: "Graph \<Rightarrow> (Edge \<Rightarrow> real) \<Rightarrow> nat \<Rightarrow> Graph \<Rightarrow> NodeQueue \<Rightarrow> bool" where
  "parents_ok g0 w s g q =
     (\<forall>u < length g0.
        (parent g u = None \<longleftrightarrow> cost_at g u = PInf \<or> u = s)
        \<and> (\<forall>e. parent g u = Some e \<longrightarrow>
              edge_end e = u \<and> edge_start e \<in> expanded g q
              \<and> e \<in> set (neighbors (g0 ! edge_start e))
              \<and> (\<exists>c. cost_at g (edge_start e) = Fin c \<and> cost_at g u = Fin (c + w e))))"

definition count_ok :: "Graph \<Rightarrow> int \<Rightarrow> Graph \<Rightarrow> NodeQueue \<Rightarrow> nat \<Rightarrow> bool" where
  "count_ok g0 its g q k =
     (its + int (length q)
        + int (\<Sum>b \<in> {b. b < length g0 \<and> b \<notin> expanded g q}. length (neighbors (g0 ! b)))
        + int k
      \<le> 1 + int (\<Sum>b < length g0. length (neighbors (g0 ! b))))"

text \<open>No cost held by a node is minus infinity.\<close>

definition sums_ok :: "Graph \<Rightarrow> bool" where
  "sums_ok g = (\<forall>u < length g. cost_at g u \<noteq> NInf)"

text \<open>The parent edges lead downwards in some ranking of the nodes: they form no cycle.\<close>

definition ranked :: "Graph \<Rightarrow> bool" where
  "ranked g =
     (\<exists>rank :: nat \<Rightarrow> nat. \<forall>u < length g. \<forall>e. parent g u = Some e \<longrightarrow> rank (edge_start e) < rank u)"

text \<open>
  The invariant of the search on the graph \<open>g0\<close>: paths and lowest costs are those of the
  graph of the accepted edges, and the loop counts against all edges.
\<close>

definition dijkstra_inv ::
  "Graph \<Rightarrow> (Edge \<Rightarrow> bool) \<Rightarrow> (Edge \<Rightarrow> real) \<Rightarrow> nat \<Rightarrow> nat \<Rightarrow> int \<Rightarrow> Graph \<Rightarrow> NodeQueue \<Rightarrow> Edge list
     \<Rightarrow> bool" where
  "dijkstra_inv g0 ok w s t its g q rem =
     (topology g = topology g0 \<and> cost_at g s = Fin 0 \<and> queue_ok g q
      \<and> realised (traversable ok g0) w s g
      \<and> expanded_opt (traversable ok g0) w s g q \<and> relaxed (traversable ok g0) w g q rem
      \<and> parents_ok (traversable ok g0) w s g q
      \<and> count_ok g0 its g q (length rem) \<and> t \<notin> expanded g q
      \<and> sums_ok g \<and> ranked g)"
section \<open>Example inputs\<close>

text \<open>A non-overridable edge with a static cost, and a node with fresh search state.\<close>

definition static_edge :: "nat \<Rightarrow> nat \<Rightarrow> nat \<Rightarrow> real \<Rightarrow> Edge" where
  "static_edge i a b c =
     \<lparr>edgeid = i, edge_start = a, edge_end = b, edge_cost = \<lparr>cost = c, overridable = False\<rparr>\<rparr>"

definition plain_node :: "nat \<Rightarrow> Edge list \<Rightarrow> Node" where
  "plain_node i es =
     \<lparr>nodeid = i, coords = \<lparr>coords_x = 0, coords_y = 0\<rparr>, neighbors = es,
      search_state = \<lparr>parent_edge = None, integrated_cost = PInf, traversal_cost = 0\<rparr>\<rparr>"

definition no_plugins :: EdgeScorer where
  "no_plugins = \<lparr>numPlugins = 0, EdgeScorer_score = (\<lambda>e s. (True, s))\<rparr>"

text \<open>Two nodes and one edge of cost \<open>c\<close> from node 0 to node 1.\<close>

definition two_nodes :: "real \<Rightarrow> Graph" where
  "two_nodes c = [plain_node 0 [static_edge 10 0 1 c], plain_node 1 []]"

text \<open>A costmap of one cell, whose cost is the value of an unknown cell.\<close>

definition unknown_map :: Costmap2D where
  "unknown_map = \<lparr>worldToMap = (\<lambda>wx wy. Some (0, 0)), getCost = (\<lambda>mx my. 255)\<rparr>"

definition one_cell_line :: "nat \<Rightarrow> nat \<Rightarrow> nat \<Rightarrow> nat \<Rightarrow> (nat \<times> nat) list" where
  "one_cell_line x0 y0 x1 y1 = [(x0, y0)]"

definition default_costmap_scorer :: "Costmap2D \<Rightarrow> CostmapScorer" where
  "default_costmap_scorer cm =
     \<lparr>costmap = Some cm, use_max = True, invalid_on_collision = True, invalid_off_map = True,
      max_cost = 253, weight = 1\<rparr>"

text \<open>A costmap on which no point of the world is on the map.\<close>

definition empty_map :: Costmap2D where
  "empty_map = \<lparr>worldToMap = (\<lambda>wx wy. None), getCost = (\<lambda>mx my. 0)\<rparr>"

text \<open>
  Three nodes: the edges 0 to 1 and 1 to 2 of cost 1 each, and the direct edge 0 to 2 of
  cost 5.
\<close>

definition three_nodes :: Graph where
  "three_nodes =
     [plain_node 0 [static_edge 10 0 1 1, static_edge 12 0 2 5],
      plain_node 1 [static_edge 11 1 2 1],
      plain_node 2 []]"

text \<open>
  Edges of cost 1 from node 0 to node 1 and to node 2, and after them in the vector of
  node 0 an edge of static cost zero.
\<close>

definition zero_cost_third_edge :: Graph where
  "zero_cost_third_edge =
     [plain_node 0 [static_edge 10 0 1 1, static_edge 11 0 2 1, static_edge 12 0 2 0],
      plain_node 1 [], plain_node 2 []]"

text \<open>
  Five nodes: a chain from node 0 to node 4 whose first edge costs \<open>2 ^ 24\<close> and whose
  other three edges cost 1 each, and the direct edge from node 0 to node 4 of cost
  \<open>2 ^ 24 + 2\<close>.
\<close>

definition long_chain :: Graph where
  "long_chain =
     [plain_node 0 [static_edge 10 0 1 16777216, static_edge 14 0 4 16777218],
      plain_node 1 [static_edge 11 1 2 1],
      plain_node 2 [static_edge 12 2 3 1],
      plain_node 3 [static_edge 13 3 4 1],
      plain_node 4 []]"

text \<open>
  Three nodes: the direct edge from node 0 to node 1 of cost 3, and the way round over
  node 2 with an edge of cost 4 and an edge of cost \<open>-2\<close>.
\<close>

definition negative_detour :: Graph where
  "negative_detour =
     [plain_node 0 [static_edge 10 0 1 3, static_edge 11 0 2 4],
      plain_node 1 [],
      plain_node 2 [static_edge 12 2 1 (- 2)]]"

text \<open>A chain of three nodes in which the middle node carries the id of the last one.\<close>

definition twin_ids :: Graph where
  "twin_ids =
     [plain_node 0 [static_edge 10 0 1 1], plain_node 7 [static_edge 11 1 2 1], plain_node 7 []]"



section \<open>Sums that are exact\<close>

lemma round_even_of_int: "round_even (of_int n) = n"
  by (simp add: round_even_def)

lemma find_upto_least:
  assumes "a \<le> k" and "k \<le> b" and "P k"
  shows "\<exists>e. find P [a..b] = Some e \<and> a \<le> e \<and> e \<le> k \<and> P e \<and> (\<forall>j. a \<le> j \<and> j < e \<longrightarrow> \<not> P j)"
proof -
  have "k \<in> set [a..b]" using assms by simp
  then have "find P [a..b] \<noteq> None" using assms(3) by (auto simp: find_None_iff)
  then obtain e where e: "find P [a..b] = Some e" by auto
  then obtain i where i: "i < length [a..b]" "P ([a..b] ! i)" "e = [a..b] ! i"
    "\<forall>j<i. \<not> P ([a..b] ! j)" by (auto simp: find_Some_iff)
  have ei: "e = a + int i" using i(1,3) by simp
  have least: "\<not> P j" if "a \<le> j" "j < e" for j
  proof -
    have "nat (j - a) < i" using that ei by simp
    then have "\<not> P ([a..b] ! nat (j - a))" using i(4) by blast
    moreover have "[a..b] ! nat (j - a) = j" using that i(1) ei by simp
    ultimately show ?thesis by simp
  qed
  have "e \<le> k"
  proof (rule ccontr)
    assume "\<not> e \<le> k"
    then have "\<not> P k" using least assms(1) by simp
    then show False using assms(3) by simp
  qed
  then show ?thesis using e ei i(2,3) least by auto
qed

lemma float_exponent_eq:
  assumes "- 149 \<le> e" and "e \<le> 104" and "\<bar>x\<bar> < 2 powi (e + 24)"
    and "e = - 149 \<or> 2 powi (e + 23) \<le> \<bar>x\<bar>"
  shows "float_exponent x = e"
proof -
  from find_upto_least[of "- 149" e 104 "\<lambda>e. \<bar>x\<bar> < 2 powi (e + 24)", OF assms(1,2,3)]
  obtain e' where e': "find (\<lambda>e. \<bar>x\<bar> < 2 powi (e + 24)) [- 149..104] = Some e'"
    "- 149 \<le> e'" "e' \<le> e" "\<bar>x\<bar> < 2 powi (e' + 24)" by blast
  have "e' = e"
  proof (rule ccontr)
    assume ne: "e' \<noteq> e"
    then have lt: "e' < e" using e'(3) by simp
    then have "e \<noteq> - 149" using e'(2) by simp
    then have lo: "(2::real) powi (e + 23) \<le> \<bar>x\<bar>" using assms(4) by simp
    have "(2::real) powi (e' + 24) \<le> 2 powi (e + 23)"
      using lt by (intro power_int_increasing) simp_all
    then show False using lo e'(4) by simp
  qed
  then show ?thesis using e'(1) by (simp add: float_exponent_def)
qed

lemma float_exponent_le:
  assumes "- 149 \<le> k" and "k \<le> 104" and "\<bar>x\<bar> < 2 powi (k + 24)"
  shows "- 149 \<le> float_exponent x \<and> float_exponent x \<le> k"
proof -
  from find_upto_least[of "- 149" k 104 "\<lambda>e. \<bar>x\<bar> < 2 powi (e + 24)", OF assms]
  obtain e' where e': "find (\<lambda>e. \<bar>x\<bar> < 2 powi (e + 24)) [- 149..104] = Some e'"
    "- 149 \<le> e'" "e' \<le> k" by blast
  then show ?thesis by (simp add: float_exponent_def)
qed

text \<open>A multiple of a power of two by an integer of 24 bits is a float.\<close>

lemma float_round_exact:
  assumes x: "x = of_int m * 2 powi k" and m: "\<bar>m\<bar> < 2 ^ 24" and k: "- 149 \<le> k" "k \<le> 104"
  shows "float_round x = Fin x"
proof -
  have ax: "\<bar>x\<bar> = of_int \<bar>m\<bar> * 2 powi k" unfolding x by (simp add: abs_mult)
  have "of_int \<bar>m\<bar> < (2::real) ^ 24" using m by (metis of_int_less_iff of_int_numeral of_int_power)
  then have "\<bar>x\<bar> < 2 ^ 24 * 2 powi k" unfolding ax by (intro mult_strict_right_mono) simp_all
  also have "\<dots> = 2 powi (k + 24)" by (simp add: power_int_add)
  finally have lt: "\<bar>x\<bar> < 2 powi (k + 24)" .
  define e where "e = float_exponent x"
  have e: "- 149 \<le> e" "e \<le> k" using float_exponent_le[OF k lt] by (simp_all add: e_def)
  have "(2::real) powi k = 2 powi (e + (k - e))" by simp
  also have "\<dots> = 2 powi e * 2 powi (k - e)" by (rule power_int_add) simp
  also have "(2::real) powi (k - e) = 2 ^ nat (k - e)" using e(2) by (simp add: power_int_def)
  finally have pk: "(2::real) powi k = 2 powi e * 2 ^ nat (k - e)" .
  have q: "x / 2 powi e = of_int (m * 2 ^ nat (k - e))"
    unfolding x pk by simp
  have r: "of_int (round_even (x / 2 powi e)) * 2 powi e = x"
    unfolding q round_even_of_int unfolding x pk by simp
  have "\<bar>x\<bar> < 2 powi (104 + 24)"
    using lt power_int_increasing[of "k + 24" "104 + 24" "2::real"] k(2) by simp
  then have "\<bar>x\<bar> < 2 ^ 128" by simp
  then have "\<not> 2 ^ 128 \<le> x" "\<not> x \<le> - (2 ^ 128)" by auto
  then show ?thesis using r by (simp add: float_round_def Let_def e_def[symmetric])
qed

text \<open>An integer of magnitude below \<open>2 ^ 24\<close> is a float, so a sum equal to it is exact.\<close>

lemma float_add_int:
  assumes "a + t = of_int m" and "\<bar>m\<bar> < 16777216"
  shows "float_add (Fin a) t = Fin (a + t)"
proof -
  have "a + t = of_int m * 2 powi 0" using assms(1) by simp
  moreover have "\<bar>m\<bar> < 2 ^ 24" using assms(2) by simp
  ultimately have "float_round (a + t) = Fin (a + t)" by (rule float_round_exact) simp_all
  then show ?thesis by simp
qed

text \<open>The sum \<open>2 ^ 24 + 1\<close> lies half way between two floats: it is rounded to \<open>2 ^ 24\<close>.\<close>

lemma float_round_absorbs: "float_round 16777217 = Fin 16777216"
proof -
  have e: "float_exponent 16777217 = 1" by (rule float_exponent_eq) simp_all
  have "round_even (16777217 / 2) = 8388608" by (simp add: round_even_def)
  then show ?thesis by (simp add: float_round_def e)
qed

section \<open>Evaluation of the examples\<close>

lemma float_round_0: "float_round 0 = Fin 0"
  using float_round_exact[of 0 0 0] by simp

lemma float_round_1: "float_round 1 = Fin 1"
  using float_round_exact[of 1 1 0] by simp

lemma float_round_numeral:
  "numeral n < (16777216::int) \<Longrightarrow> float_round (numeral n) = Fin (numeral n)"
  using float_round_exact[of "numeral n" "numeral n" 0] by simp

lemma float_round_neg_numeral:
  "numeral n < (16777216::int) \<Longrightarrow> float_round (- numeral n) = Fin (- numeral n)"
  using float_round_exact[of "- numeral n" "- numeral n" 0] by simp

lemmas planner_defs =
  findRoute_def findShortestGraphTraversal_def search_loop.simps backtrack.simps
  resetSearchStates_def reset_def addNode_def clearQueue_def getNextNode_def isGoal_def
  getTraversalCost_def relax_edge_def configure_def no_plugins_def plain_node_def
  static_edge_def INT_MAX_def float_round_0 float_round_1 float_round_numeral
  float_round_neg_numeral

section \<open>Pricing an edge\<close>

lemma static_cost_zero_raises:
  assumes "\<not> overridable (edge_cost e) \<or> numPlugins (edge_scorer rp) = 0"
    and "cost (edge_cost e) = 0"
  shows "getTraversalCost rp gid g e s [] = Inl NoValidGraph"
  using assms by (auto simp: getTraversalCost_def)

lemma static_cost_positive_returned:
  assumes "\<not> overridable (edge_cost e) \<or> numPlugins (edge_scorer rp) = 0"
    and "0 < cost (edge_cost e)"
  shows "getTraversalCost rp gid g e s [] = Inr (True, cost (edge_cost e))"
  using assms by (auto simp: getTraversalCost_def)

text \<open>
  Claim C2: an edge priced by its static cost raises the invalid-graph error when that
  cost is zero or negative, and is priced at the static cost when it is positive. The
  source tests the static cost for equality with zero only, so a negative static cost is
  accepted: the non-overridable edge of cost \<open>-1\<close> is valid and priced at \<open>-1\<close>.
\<close>

theorem negative_static_cost_accepted:
  "getTraversalCost (configure 0 no_plugins first_min) 1 (two_nodes (- 1))
     (static_edge 10 0 1 (- 1)) 0 [] = Inr (True, - 1)"
  by (simp add: getTraversalCost_def static_edge_def)

theorem negative_static_cost_accepted_witness:
  "\<not> overridable (edge_cost (static_edge 10 0 1 (- 1)))
   \<and> numPlugins (edge_scorer (configure 0 no_plugins first_min)) = 0
   \<and> cost (edge_cost (static_edge 10 0 1 (- 1))) < 0
   \<and> getTraversalCost (configure 0 no_plugins first_min) 1 (two_nodes (- 1))
        (static_edge 10 0 1 (- 1)) 0 [] \<noteq> Inl NoValidGraph"
  using negative_static_cost_accepted
  by (simp add: static_edge_def configure_def no_plugins_def)

text \<open>
  Claim C10: the veto of the blocked ids comes before the check of the static cost. A
  blocked edge whose end is not the goal is reported invalid whatever its static cost is,
  with the score left as it was; the same edge, non-overridable and of static cost zero,
  raises the invalid-graph error with every list of blocked ids that does not veto it,
  the empty list among them.
\<close>

theorem blocked_edge_skipped_before_cost_check:
  "(list_ex (\<lambda>i. i = edgeid e \<or> i = nodeid (g ! edge_end e)) blocked_ids
      \<and> \<not> isGoal gid (g ! edge_end e)
      \<longrightarrow> getTraversalCost rp gid g e s blocked_ids = Inr (False, s))
   \<and> (\<not> (list_ex (\<lambda>i. i = edgeid e \<or> i = nodeid (g ! edge_end e)) other_ids
            \<and> \<not> isGoal gid (g ! edge_end e))
      \<and> \<not> overridable (edge_cost e) \<and> cost (edge_cost e) = 0
      \<longrightarrow> getTraversalCost rp gid g e s other_ids = Inl NoValidGraph)"
  by (simp add: getTraversalCost_def)

theorem blocked_edge_skipped_witness:
  "list_ex (\<lambda>i. i = edgeid (static_edge 10 0 1 0) \<or> i = nodeid (two_nodes 0 ! edge_end (static_edge 10 0 1 0))) [10]
   \<and> \<not> isGoal 0 (two_nodes 0 ! edge_end (static_edge 10 0 1 0))
   \<and> \<not> overridable (edge_cost (static_edge 10 0 1 0)) \<and> cost (edge_cost (static_edge 10 0 1 0)) = 0
   \<and> getTraversalCost (configure 0 no_plugins first_min) 0 (two_nodes 0) (static_edge 10 0 1 0) 5 [10]
       = Inr (False, 5)
   \<and> getTraversalCost (configure 0 no_plugins first_min) 0 (two_nodes 0) (static_edge 10 0 1 0) 5 []
       = Inl NoValidGraph"
  using blocked_edge_skipped_before_cost_check
    [of "static_edge 10 0 1 0" "two_nodes 0" "[10]" 0 "configure 0 no_plugins first_min" 5 "[]"]
  by (simp add: static_edge_def two_nodes_def plain_node_def isGoal_def)

section \<open>The closure and penalty scorer: properties\<close>

text \<open>
  Claim C5: for every edge and every value \<open>c\<close> of the cost supplied by the caller, the
  score operation reports invalid and leaves the cost at \<open>c\<close> when the edge id is closed;
  reports valid with the mapped value when the edge id is not closed and has an entry in
  the penalty map; and reports valid with the cost unchanged when the edge id is neither
  closed nor in the penalty map.
\<close>

theorem adjust_edges_score_cases:
  "(edgeid e \<in> closed_edges sc \<longrightarrow> AdjustEdgesScorer_score sc e c = (False, c))
   \<and> (edgeid e \<notin> closed_edges sc \<longrightarrow>
        (\<forall>v. dynamic_penalties sc (edgeid e) = Some v \<longrightarrow> AdjustEdgesScorer_score sc e c = (True, v)))
   \<and> (edgeid e \<notin> closed_edges sc \<longrightarrow> dynamic_penalties sc (edgeid e) = None \<longrightarrow>
        AdjustEdgesScorer_score sc e c = (True, c))"
  by (simp add: AdjustEdgesScorer_score_def)

theorem adjust_edges_score_witness:
  "edgeid (static_edge 3 0 1 1) \<in> closed_edges \<lparr>closed_edges = {3}, dynamic_penalties = [4 \<mapsto> 9]\<rparr>
   \<and> AdjustEdgesScorer_score \<lparr>closed_edges = {3}, dynamic_penalties = [4 \<mapsto> 9]\<rparr> (static_edge 3 0 1 1) 2
        = (False, 2)
   \<and> edgeid (static_edge 4 0 1 1) \<notin> closed_edges \<lparr>closed_edges = {3}, dynamic_penalties = [4 \<mapsto> 9]\<rparr>
   \<and> dynamic_penalties \<lparr>closed_edges = {3}, dynamic_penalties = [4 \<mapsto> 9]\<rparr> (edgeid (static_edge 4 0 1 1))
        = Some 9
   \<and> AdjustEdgesScorer_score \<lparr>closed_edges = {3}, dynamic_penalties = [4 \<mapsto> 9]\<rparr> (static_edge 4 0 1 1) 2
        = (True, 9)
   \<and> edgeid (static_edge 5 0 1 1) \<notin> closed_edges \<lparr>closed_edges = {3}, dynamic_penalties = [4 \<mapsto> 9]\<rparr>
   \<and> dynamic_penalties \<lparr>closed_edges = {3}, dynamic_penalties = [4 \<mapsto> 9]\<rparr> (edgeid (static_edge 5 0 1 1))
        = None
   \<and> AdjustEdgesScorer_score \<lparr>closed_edges = {3}, dynamic_penalties = [4 \<mapsto> 9]\<rparr> (static_edge 5 0 1 1) 2
        = (True, 2)"
  using adjust_edges_score_cases [of "static_edge 3 0 1 1" "\<lparr>closed_edges = {3}, dynamic_penalties = [4 \<mapsto> 9]\<rparr>" 2]
    adjust_edges_score_cases [of "static_edge 4 0 1 1" "\<lparr>closed_edges = {3}, dynamic_penalties = [4 \<mapsto> 9]\<rparr>" 2]
    adjust_edges_score_cases [of "static_edge 5 0 1 1" "\<lparr>closed_edges = {3}, dynamic_penalties = [4 \<mapsto> 9]\<rparr>" 2]
  by (simp add: static_edge_def)

lemma fold_insert_closed: "fold (\<lambda>e s. insert e s) xs A = A \<union> set xs"
  by (induction xs arbitrary: A) auto

lemma fold_erase_opened: "fold (\<lambda>e s. if e \<in> s then s - {e} else s) xs A = A - set xs"
  by (induction xs arbitrary: A) auto

lemma fold_upsert_penalties: "fold (\<lambda>a m. m(fst a \<mapsto> snd a)) xs m = m ++ map_of (rev xs)"
  by (induction xs arbitrary: m) (auto simp: map_add_def fun_eq_iff split: option.splits)

text \<open>
  Claim C8, as stated, asks that every id of the closed list is in the closed set after
  the request. The handler closes first and opens afterwards, so an id that is in both
  lists of one request ends up open.
\<close>

theorem closed_and_opened_id_ends_open:
  "\<not> (\<forall>i \<in> set (request_closed_edges
          \<lparr>request_closed_edges = [1], request_opened_edges = [1], request_adjust_edges = []\<rparr>).
        i \<in> closed_edges (fst (closedEdgesCb \<lparr>closed_edges = {}, dynamic_penalties = Map.empty\<rparr>
          \<lparr>request_closed_edges = [1], request_opened_edges = [1], request_adjust_edges = []\<rparr>)))"
  by (simp add: closedEdgesCb_def)

text \<open>
  Claim C8, amended: after a request the closed set is the old closed set with the ids of
  the closed list added and then all ids of the opened list removed, so an id of the
  closed list is closed unless the opened list names it too, and every id of the opened
  list is open (removing an id that is not closed changes nothing); the penalty map is
  the old map overwritten by the adjustments in their order, the last pair of an id
  winning; the response reports success. The handler has no access to the graph: no id
  is validated.
\<close>

theorem closedEdgesCb_postcondition:
  "closedEdgesCb sc request =
     (\<lparr>closed_edges = (closed_edges sc \<union> set (request_closed_edges request))
                        - set (request_opened_edges request),
       dynamic_penalties = dynamic_penalties sc ++ map_of (rev (request_adjust_edges request))\<rparr>,
      \<lparr>success = True\<rparr>)"
  by (simp add: closedEdgesCb_def fold_insert_closed fold_erase_opened fold_upsert_penalties)

section \<open>The costmap scorer: properties\<close>

text \<open>
  Claim C7, as stated, says that an edge with an end off the map is accepted with a
  contributed cost of zero when \<open>invalid_off_map\<close> is not set. The scorer returns there
  without writing the cost: the cost that comes out is the value that the caller put in,
  7 for a caller that passes 7.
\<close>

theorem off_map_edge_keeps_cost_of_caller:
  "CostmapScorer_score ((default_costmap_scorer empty_map)\<lparr>invalid_off_map := False\<rparr>)
      one_cell_line (two_nodes 1) (static_edge 10 0 1 1) 7 = (True, 7)"
  by (simp add: CostmapScorer_score_def default_costmap_scorer_def empty_map_def)

text \<open>
  Claim C7, amended: when the conversion of the start or of the end of the edge to a cell
  of the map fails, the scorer rejects the edge if \<open>invalid_off_map\<close> is set, and
  otherwise accepts it; in both cases it leaves the cost at the value \<open>c\<close> that the
  caller supplied.
\<close>

theorem off_map_edge_policy:
  assumes "costmap sc = Some cm"
    and "worldToMap cm (coords_x (coords (g ! edge_start e))) (coords_y (coords (g ! edge_start e))) = None
         \<or> worldToMap cm (coords_x (coords (g ! edge_end e))) (coords_y (coords (g ! edge_end e))) = None"
  shows "CostmapScorer_score sc LineIterator g e c = (\<not> invalid_off_map sc, c)"
  using assms by (auto simp: CostmapScorer_score_def split: option.splits)

theorem off_map_edge_policy_witness:
  "costmap (default_costmap_scorer empty_map) = Some empty_map
   \<and> worldToMap empty_map (coords_x (coords (two_nodes 1 ! edge_start (static_edge 10 0 1 1))))
        (coords_y (coords (two_nodes 1 ! edge_start (static_edge 10 0 1 1)))) = None
   \<and> invalid_off_map (default_costmap_scorer empty_map)
   \<and> CostmapScorer_score (default_costmap_scorer empty_map) one_cell_line (two_nodes 1)
        (static_edge 10 0 1 1) 3 = (False, 3)
   \<and> \<not> invalid_off_map ((default_costmap_scorer empty_map)\<lparr>invalid_off_map := False\<rparr>)
   \<and> CostmapScorer_score ((default_costmap_scorer empty_map)\<lparr>invalid_off_map := False\<rparr>) one_cell_line
        (two_nodes 1) (static_edge 10 0 1 1) 3 = (True, 3)"
  using off_map_edge_policy [of "default_costmap_scorer empty_map" empty_map "two_nodes 1"
      "static_edge 10 0 1 1" one_cell_line 3]
    off_map_edge_policy [of "(default_costmap_scorer empty_map)\<lparr>invalid_off_map := False\<rparr>" empty_map
      "two_nodes 1" "static_edge 10 0 1 1" one_cell_line 3]
  by (simp add: default_costmap_scorer_def empty_map_def)

text \<open>
  Claim C6: a sample equal to the value of an unknown cell (255) is excluded from the
  lethal check and from the maximum and the accumulation, for every \<open>max_cost\<close> and
  \<open>invalid_on_collision\<close>. The source excludes it from the maximum only. The lethal
  check compares \<open>max_cost\<close>, not the sample, with 255: with the default configuration
  (\<open>max_cost = 253\<close>, \<open>invalid_on_collision\<close> set) an edge over one unknown cell is
  rejected. The running sum adds every sample: without rejection and with the mean as
  the aggregate, the same edge costs \<open>255 / 253\<close> where excluding the sample gives no
  cost, while the maximum of that edge is zero.
\<close>

theorem unknown_sample_counts_as_lethal_and_in_mean:
  "CostmapScorer_score (default_costmap_scorer unknown_map) one_cell_line (two_nodes 1)
      (static_edge 10 0 1 1) 0 = (False, 0)
   \<and> CostmapScorer_score
        ((default_costmap_scorer unknown_map)\<lparr>invalid_on_collision := False, use_max := False\<rparr>)
        one_cell_line (two_nodes 1) (static_edge 10 0 1 1) 0 = (True, 255 / 253)
   \<and> CostmapScorer_score ((default_costmap_scorer unknown_map)\<lparr>invalid_on_collision := False\<rparr>)
        one_cell_line (two_nodes 1) (static_edge 10 0 1 1) 0 = (True, 0)"
  by (simp add: CostmapScorer_score_def default_costmap_scorer_def unknown_map_def one_cell_line_def)

theorem unknown_sample_witness:
  "getCost unknown_map 0 0 = 255
   \<and> max_cost (default_costmap_scorer unknown_map) = 253
   \<and> invalid_on_collision (default_costmap_scorer unknown_map)
   \<and> fst (CostmapScorer_score (default_costmap_scorer unknown_map) one_cell_line (two_nodes 1)
        (static_edge 10 0 1 1) 0) = False"
  using unknown_sample_counts_as_lethal_and_in_mean
  by (simp add: default_costmap_scorer_def unknown_map_def)

section \<open>The outcome of a search\<close>

text \<open>
  Claim C3: the search raises the timeout error exactly when the loop is left because
  the bound was reached without popping the goal; a search that pops the goal never
  raises it. The source tests \<open>iterations \<ge> max_iterations\<close> after the loop, also
  when the loop was left at the goal: with a bound of two iterations the search on the
  graph of two nodes pops the goal in its second iteration and raises the timeout error,
  and with a bound of three it returns the route. The planner is the same after the call
  as before it, with an empty schedule.
\<close>

theorem goal_popped_in_last_iteration_times_out:
  "findRoute (configure 2 no_plugins first_min) (two_nodes 1) 0 1 []
       = Some (Inl TimedOut, configure 2 no_plugins first_min)
   \<and> findRoute (configure 3 no_plugins first_min) (two_nodes 1) 0 1 []
       = Some (Inr \<lparr>start_node = 0, edges = [static_edge 10 0 1 1], route_cost = Fin 1\<rparr>,
               configure 3 no_plugins first_min)"
  by (simp add: planner_defs two_nodes_def)

theorem goal_popped_in_last_iteration_witness:
  "two_nodes 1 \<noteq> [] \<and> 0 < length (two_nodes 1) \<and> 1 < length (two_nodes 1)
   \<and> max_iterations (configure 2 no_plugins first_min) = 2
   \<and> findRoute (configure 2 no_plugins first_min) (two_nodes 1) 0 1 []
        = Some (Inl TimedOut, configure 2 no_plugins first_min)"
  using goal_popped_in_last_iteration_times_out
  by (simp add: two_nodes_def configure_def)

section \<open>Rules for the loops of the search\<close>

lemma well_formed_iff:
  "well_formed g \<longleftrightarrow>
     (\<forall>i < length g. \<forall>e \<in> set (neighbors (g ! i)). edge_start e = i \<and> edge_end e < length g)"
proof
  assume wf: "well_formed g"
  show "\<forall>i < length g. \<forall>e \<in> set (neighbors (g ! i)). edge_start e = i \<and> edge_end e < length g"
  proof (intro allI impI ballI)
    fix i e assume i: "i < length g" and e: "e \<in> set (neighbors (g ! i))"
    have "(i, g ! i) \<in> set (enumerate 0 g)" using i by (simp add: in_set_enumerate_eq)
    with wf e show "edge_start e = i \<and> edge_end e < length g"
      by (auto simp: well_formed_def list_all_iff)
  qed
next
  assume "\<forall>i < length g. \<forall>e \<in> set (neighbors (g ! i)). edge_start e = i \<and> edge_end e < length g"
  then show "well_formed g"
    by (auto simp: well_formed_def list_all_iff in_set_enumerate_eq)
qed

lemma topology_length: "topology g' = topology g \<Longrightarrow> length g' = length g"
  unfolding topology_def by (metis length_map)

lemma topology_nth:
  assumes "topology g' = topology g" and "i < length g"
  shows "nodeid (g' ! i) = nodeid (g ! i)" and "neighbors (g' ! i) = neighbors (g ! i)"
proof -
  have "length g' = length g" using assms(1) by (rule topology_length)
  moreover have "topology g' ! i = topology g ! i" using assms(1) by simp
  ultimately show "nodeid (g' ! i) = nodeid (g ! i)" and "neighbors (g' ! i) = neighbors (g ! i)"
    using assms(2) by (simp_all add: topology_def)
qed

lemma topology_update:
  assumes "nodeid n = nodeid (g ! i)" and "neighbors n = neighbors (g ! i)"
  shows "topology (g[i := n]) = topology g"
proof (cases "i < length g")
  case True
  then show ?thesis using assms by (simp add: topology_def map_update list_update_same_conv)
next
  case False
  then show ?thesis by (simp add: list_update_beyond)
qed

lemma topology_search_state: "topology (g[i := (g ! i)\<lparr>search_state := st\<rparr>]) = topology g"
  by (rule topology_update) simp_all

lemma topology_reset: "topology (resetSearchStates g) = topology g"
  by (simp add: topology_def resetSearchStates_def)



lemma search_loop_rule:
  assumes res: "search_loop rp gid bl its (g, q, tc) = Inr (its', g', q', tc')"
    and I0: "I its g q tc"
    and stale: "\<And>its g q tc. I its g q tc \<Longrightarrow> q \<noteq> [] \<Longrightarrow> its < max_iterations rp \<Longrightarrow>
        fst (popped rp q) \<noteq> integrated_cost (search_state (g ! snd (popped rp q))) \<Longrightarrow>
        I (its + 1) g (rest rp q) tc"
    and expand: "\<And>its g q tc g' q' tc'. I its g q tc \<Longrightarrow> q \<noteq> [] \<Longrightarrow> its < max_iterations rp \<Longrightarrow>
        fst (popped rp q) = integrated_cost (search_state (g ! snd (popped rp q))) \<Longrightarrow>
        \<not> isGoal gid (g ! snd (popped rp q)) \<Longrightarrow>
        expand_edges rp gid bl (fst (popped rp q)) (neighbors (g ! snd (popped rp q))) (g, rest rp q, tc)
          = Inr (g', q', tc') \<Longrightarrow>
        I (its + 1) g' q' tc'"
  shows "\<exists>its0 q0. I its0 g' q0 tc' \<and>
     ((its0 = its' \<and> q0 = q' \<and> (q' = [] \<or> max_iterations rp \<le> its'))
      \<or> (its' = its0 + 1 \<and> q0 \<noteq> [] \<and> its0 < max_iterations rp \<and> q' = rest rp q0
          \<and> fst (popped rp q0) = integrated_cost (search_state (g' ! snd (popped rp q0)))
          \<and> isGoal gid (g' ! snd (popped rp q0))))"
  using res I0 stale expand
proof (induction rp gid bl its "(g, q, tc)" arbitrary: g q tc rule: search_loop.induct)
  case (1 rp gid bl its g q tc)
  note IH = "1.hyps"[folded popped_def rest_def] and res = "1.prems"(1) and I = "1.prems"(2)
    and stale = "1.prems"(3) and expand = "1.prems"(4)
  show ?case
  proof (cases "q \<noteq> [] \<and> its < max_iterations rp")
    case False
    then have "its' = its" "g' = g" "q' = q" "tc' = tc"
      using res by (auto simp: search_loop.simps[of rp gid bl its g q tc])
    then show ?thesis using I False by (intro exI[of _ its] exI[of _ q]) auto
  next
    case True
    note run = this
    show ?thesis
    proof (cases "fst (popped rp q) \<noteq> integrated_cost (search_state (g ! snd (popped rp q)))")
      case True
      then have r: "search_loop rp gid bl (its + 1) (g, rest rp q, tc) = Inr (its', g', q', tc')"
        using res run by (simp add: search_loop.simps[of rp gid bl its g q tc] popped_def rest_def)
      have "I (its + 1) g (rest rp q) tc" using stale[OF I _ _ True] run by simp
      from IH(1)[OF run True r this stale expand] show ?thesis .
    next
      case False
      note fresh = this
      show ?thesis
      proof (cases "isGoal gid (g ! snd (popped rp q))")
        case True
        then have "its' = its + 1" "g' = g" "q' = rest rp q" "tc' = tc"
          using res run fresh by (auto simp: search_loop.simps[of rp gid bl its g q tc] popped_def rest_def)
        then show ?thesis using I run fresh True by (intro exI[of _ its] exI[of _ q]) auto
      next
        case False
        from res run fresh False obtain s where
          ex: "expand_edges rp gid bl (fst (popped rp q)) (neighbors (g ! snd (popped rp q))) (g, rest rp q, tc) = Inr s"
          and r: "search_loop rp gid bl (its + 1) s = Inr (its', g', q', tc')"
          by (auto simp: search_loop.simps[of rp gid bl its g q tc] popped_def rest_def split: sum.splits)
        obtain g1 q1 tc1 where s: "s = (g1, q1, tc1)" by (cases s)
        have I1: "I (its + 1) g1 q1 tc1"
          using expand[OF I _ _ _ False ex[unfolded s]] run fresh by simp
        from fresh have fresh': "\<not> fst (popped rp q) \<noteq> integrated_cost (search_state (g ! snd (popped rp q)))"
          by simp
        from IH(2)[OF run fresh' False ex[unfolded s] r[unfolded s] I1 stale expand] show ?thesis .
      qed
    qed
  qed
qed


lemma first_min_bound: "q \<noteq> [] \<Longrightarrow> first_min q < length q"
  by (induction q rule: first_min.induct) auto

lemma cost_less_irrefl: "\<not> cost_less a a"
  by (cases a) simp_all

lemma cost_less_asym: "cost_less a b \<Longrightarrow> \<not> cost_less b a"
  by (cases a; cases b) simp_all

lemma cost_less_cut: "cost_less a c \<Longrightarrow> cost_less a b \<or> cost_less b c"
  by (cases a; cases b; cases c) auto

lemma first_min_least: "x \<in> set q \<Longrightarrow> \<not> cost_less (fst x) (fst (q ! first_min q))"
proof (induction q arbitrary: x rule: first_min.induct)
  case 1
  then show ?case by simp
next
  case (2 y)
  then show ?case by (simp add: cost_less_irrefl)
next
  case (3 a b q)
  let ?m = "(b # q) ! first_min (b # q)"
  show ?case
  proof (cases "x = a")
    case True
    then show ?thesis using cost_less_asym[of "fst ?m" "fst a"] by (simp add: cost_less_irrefl)
  next
    case False
    then have "x \<in> set (b # q)" using "3.prems" by simp
    then have m: "\<not> cost_less (fst x) (fst ?m)" by (rule "3.IH")
    show ?thesis
    proof (cases "cost_less (fst ?m) (fst a)")
      case True
      then show ?thesis using m by simp
    next
      case False
      then have "\<not> cost_less (fst x) (fst a)" using m cost_less_cut[of "fst x" "fst a" "fst ?m"] by blast
      then show ?thesis using False by simp
    qed
  qed
qed

lemma lowest_first_first_min: "lowest_first first_min"
  unfolding lowest_first_def using first_min_bound first_min_least by blast

lemma popped_in_queue:
  assumes "lowest_first (queue_top rp)" and "q \<noteq> []"
  shows "popped rp q \<in> set q"
  using assms by (simp add: popped_def getNextNode_def lowest_first_def)

lemma popped_least:
  assumes "lowest_first (queue_top rp)" and "x \<in> set q"
  shows "\<not> cost_less (fst x) (fst (popped rp q))"
proof -
  have "q \<noteq> []" using assms(2) by auto
  then show ?thesis using assms by (simp add: popped_def getNextNode_def lowest_first_def)
qed

lemma rest_subset: "set (rest rp q) \<subseteq> set q"
proof -
  have "set (take (queue_top rp q) q) \<subseteq> set q" by (rule set_take_subset)
  moreover have "set (drop (Suc (queue_top rp q)) q) \<subseteq> set q" by (rule set_drop_subset)
  ultimately show ?thesis by (simp add: rest_def getNextNode_def)
qed

text \<open>What one step of the for loop does.\<close>

lemma relax_edge_cases:
  assumes "relax_edge rp gid bl c e (g, q, tc) = Inr (g', q', tc')"
  obtains (skip) "g' = g" and "q' = q"
  | (relax) "getTraversalCost rp gid g e tc bl = Inr (True, tc')"
      and "cost_less (float_add c tc') (integrated_cost (search_state (g ! edge_end e)))"
      and "g' = g[edge_end e := (g ! edge_end e)\<lparr>search_state :=
              \<lparr>parent_edge = Some e, integrated_cost = float_add c tc', traversal_cost = tc'\<rparr>\<rparr>]"
      and "q' = q @ [(float_add c tc', edge_end e)]"
proof (cases "getTraversalCost rp gid g e tc bl")
  case (Inl err)
  then show ?thesis using assms by (simp add: relax_edge_def)
next
  case (Inr p)
  obtain valid t where p: "p = (valid, t)" by (cases p)
  show ?thesis
  proof (cases "valid \<and> cost_less (float_add c t) (integrated_cost (search_state (g ! edge_end e)))")
    case False
    then have "relax_edge rp gid bl c e (g, q, tc) = Inr (g, q, t)" using Inr p
      by (cases valid) (simp_all add: relax_edge_def)
    from this[symmetric] assms have "Inr (g, q, t) = (Inr (g', q', tc') :: error \<times> NodeQueue + Graph \<times> NodeQueue \<times> real)"
      by (rule trans)
    then have "g' = g" and "q' = q" by auto
    then show ?thesis by (rule skip)
  next
    case True
    then have "relax_edge rp gid bl c e (g, q, tc) = Inr (g[edge_end e := (g ! edge_end e)\<lparr>search_state :=
              \<lparr>parent_edge = Some e, integrated_cost = float_add c t, traversal_cost = t\<rparr>\<rparr>],
              q @ [(float_add c t, edge_end e)], t)"
      using Inr p by (simp add: relax_edge_def addNode_def)
    from this[symmetric] assms have "Inr (g[edge_end e := (g ! edge_end e)\<lparr>search_state :=
              \<lparr>parent_edge = Some e, integrated_cost = float_add c t, traversal_cost = t\<rparr>\<rparr>],
              q @ [(float_add c t, edge_end e)], t) = (Inr (g', q', tc') :: error \<times> NodeQueue + Graph \<times> NodeQueue \<times> real)"
      by (rule trans)
    then have t: "t = tc'"
      and g': "g' = g[edge_end e := (g ! edge_end e)\<lparr>search_state :=
              \<lparr>parent_edge = Some e, integrated_cost = float_add c t, traversal_cost = t\<rparr>\<rparr>]"
      and q': "q' = q @ [(float_add c t, edge_end e)]"
      by auto
    show ?thesis
    proof (rule relax)
      show "getTraversalCost rp gid g e tc bl = Inr (True, tc')" using Inr p True t by simp
      show "cost_less (float_add c tc') (integrated_cost (search_state (g ! edge_end e)))"
        using True t by simp
      show "g' = g[edge_end e := (g ! edge_end e)\<lparr>search_state :=
              \<lparr>parent_edge = Some e, integrated_cost = float_add c tc', traversal_cost = tc'\<rparr>\<rparr>]"
        unfolding g' t ..
      show "q' = q @ [(float_add c tc', edge_end e)]" unfolding q' t ..
    qed
  qed
qed

lemma expand_edges_rule:
  assumes "expand_edges rp gid bl c es s = Inr s'"
    and "J es s"
    and "\<And>e es s s'. J (e # es) s \<Longrightarrow> relax_edge rp gid bl c e s = Inr s' \<Longrightarrow> J es s'"
  shows "J [] s'"
  using assms
proof (induction es arbitrary: s)
  case Nil
  then show ?case by simp
next
  case (Cons e es)
  from Cons.prems(1) obtain s1 where r: "relax_edge rp gid bl c e s = Inr s1"
    and ex: "expand_edges rp gid bl c es s1 = Inr s'"
    by (auto split: sum.splits)
  have "J es s1" using Cons.prems(3)[OF Cons.prems(2) r] .
  from Cons.IH[OF ex this Cons.prems(3)] show ?case .
qed




lemma getTraversalCost_valid_not_vetoed:
  assumes "getTraversalCost rp gid g e tc bl = Inr (True, tc')"
  shows "vetoed g bl e \<longrightarrow> nodeid (g ! edge_end e) = gid"
  using assms by (auto simp: getTraversalCost_def vetoed_def list_ex_iff isGoal_def split: if_splits)

lemma parents_satisfy_update:
  assumes "parents_satisfy P g" and "\<And>e. parent_edge (search_state n) = Some e \<Longrightarrow> P e"
  shows "parents_satisfy P (g[i := n])"
  unfolding parents_satisfy_def
proof (intro ballI allI impI)
  fix m e assume m: "m \<in> set (g[i := n])" and pe: "parent_edge (search_state m) = Some e"
  from m have "m = n \<or> m \<in> set g" using set_update_subset_insert[of g i n] by auto
  then show "P e" using assms pe by (auto simp: parents_satisfy_def)
qed



lemma relax_edge_search_inv:
  assumes inv: "search_inv g0 (route_edge_ok g0 bl gid) g q"
    and e: "edge_start e < length g0" "edge_end e < length g0"
    and r: "relax_edge rp gid bl c e (g, q, tc) = Inr (g', q', tc')"
  shows "search_inv g0 (route_edge_ok g0 bl gid) g' q'"
  using r
proof (cases rule: relax_edge_cases)
  case skip
  then show ?thesis using inv by simp
next
  case relax
  have top: "topology g = topology g0" using inv by (simp add: search_inv_def)
  have "vetoed g bl e \<longrightarrow> nodeid (g ! edge_end e) = gid"
    using relax(1) by (rule getTraversalCost_valid_not_vetoed)
  moreover have "nodeid (g ! edge_end e) = nodeid (g0 ! edge_end e)"
    using topology_nth(1)[OF top e(2)] .
  ultimately have ok: "route_edge_ok g0 bl gid e"
    using e by (simp add: route_edge_ok_def vetoed_def)
  have "topology g' = topology g0"
    unfolding relax(3) using top by (simp add: topology_update)
  moreover have "\<forall>x \<in> set q'. snd x < length g0"
    using inv e by (auto simp: relax(4) search_inv_def)
  moreover have "parents_satisfy (route_edge_ok g0 bl gid) g'"
    unfolding relax(3) using inv ok by (intro parents_satisfy_update) (auto simp: search_inv_def)
  ultimately show ?thesis by (simp add: search_inv_def)
qed

lemma expand_edges_search_inv:
  assumes inv: "search_inv g0 (route_edge_ok g0 bl gid) g q"
    and es: "\<forall>e \<in> set es. edge_start e < length g0 \<and> edge_end e < length g0"
    and ex: "expand_edges rp gid bl c es (g, q, tc) = Inr (g', q', tc')"
  shows "search_inv g0 (route_edge_ok g0 bl gid) g' q'"
proof -
  define J where "J = (\<lambda>(es :: Edge list) (s :: Graph \<times> NodeQueue \<times> real).
     (\<forall>e \<in> set es. edge_start e < length g0 \<and> edge_end e < length g0)
     \<and> search_inv g0 (route_edge_ok g0 bl gid) (fst s) (fst (snd s)))"
  have "J [] (g', q', tc')"
  proof (rule expand_edges_rule[OF ex, of J])
    show "J es (g, q, tc)" using inv es by (simp add: J_def)
  next
    fix e es s s' assume j: "J (e # es) s" and r: "relax_edge rp gid bl c e s = Inr s'"
    obtain g1 q1 tc1 where s: "s = (g1, q1, tc1)" by (cases s)
    obtain g2 q2 tc2 where s': "s' = (g2, q2, tc2)" by (cases s')
    have "search_inv g0 (route_edge_ok g0 bl gid) g2 q2"
      using relax_edge_search_inv[of g0 bl gid g1 q1 e rp c tc1 g2 q2 tc2] j r
      by (simp add: J_def s s')
    then show "J es s'" using j by (simp add: J_def s')
  qed
  then show ?thesis by (simp add: J_def)
qed

lemma search_loop_search_inv:
  assumes wf: "well_formed g0" and lf: "lowest_first (queue_top rp)"
    and inv: "search_inv g0 (route_edge_ok g0 bl gid) g q"
    and res: "search_loop rp gid bl its (g, q, tc) = Inr (its', g', q', tc')"
  shows "topology g' = topology g0 \<and> parents_satisfy (route_edge_ok g0 bl gid) g'"
proof -
  define I where "I = (\<lambda>(its :: int) g q (tc :: real). search_inv g0 (route_edge_ok g0 bl gid) g q)"
  have "\<exists>its0 q0. I its0 g' q0 tc' \<and>
     ((its0 = its' \<and> q0 = q' \<and> (q' = [] \<or> max_iterations rp \<le> its'))
      \<or> (its' = its0 + 1 \<and> q0 \<noteq> [] \<and> its0 < max_iterations rp \<and> q' = rest rp q0
          \<and> fst (popped rp q0) = integrated_cost (search_state (g' ! snd (popped rp q0)))
          \<and> isGoal gid (g' ! snd (popped rp q0))))"
  proof (rule search_loop_rule[OF res, of I])
    show "I its g q tc" using inv by (simp add: I_def)
  next
    fix its g q tc assume "I its g q tc"
    then show "I (its + 1) g (rest rp q) tc"
      using rest_subset[of rp q] by (auto simp: I_def search_inv_def)
  next
    fix its g q tc g' q' tc'
    assume i: "I its g q tc" and q: "q \<noteq> []"
      and ex: "expand_edges rp gid bl (fst (popped rp q)) (neighbors (g ! snd (popped rp q)))
                 (g, rest rp q, tc) = Inr (g', q', tc')"
    have top: "topology g = topology g0" using i by (simp add: I_def search_inv_def)
    have u: "snd (popped rp q) < length g0"
      using popped_in_queue[OF lf q] i by (auto simp: I_def search_inv_def)
    have "neighbors (g ! snd (popped rp q)) = neighbors (g0 ! snd (popped rp q))"
      using topology_nth(2)[OF top u] .
    then have es: "\<forall>e \<in> set (neighbors (g ! snd (popped rp q))).
        edge_start e < length g0 \<and> edge_end e < length g0"
      using wf u by (auto simp: well_formed_iff)
    have "search_inv g0 (route_edge_ok g0 bl gid) g (rest rp q)"
      using i rest_subset[of rp q] by (auto simp: I_def search_inv_def)
    from expand_edges_search_inv[OF this es ex] show "I (its + 1) g' q' tc'"
      by (simp add: I_def)
  qed
  then show ?thesis by (auto simp: I_def search_inv_def)
qed

section \<open>Blocked ids\<close>

lemma backtrack_edges_satisfy:
  "backtrack goal g acc = Some r \<Longrightarrow> parents_satisfy P g \<Longrightarrow> \<forall>e \<in> set acc. P e
     \<Longrightarrow> (\<And>e. P e \<Longrightarrow> edge_start e < length g)
     \<Longrightarrow> goal < length g \<Longrightarrow> \<forall>e \<in> set (snd r). P e"
proof (induction goal g acc r rule: backtrack.raw_induct[rotated 1, consumes 1, case_names step])
  case (step bt goal g acc r)
  note IH = step.IH and eq = step.hyps and par = step.prems(1) and acc = step.prems(2)
    and st = step.prems(3) and goal = step.prems(4)
  show ?case
  proof (cases "parent_edge (search_state (g ! goal))")
    case None
    then have "r = (g, acc)" using eq by simp
    then show ?thesis using acc by auto
  next
    case (Some pe)
    let ?g = "g[goal := (g ! goal)\<lparr>search_state := (search_state (g ! goal))
                 \<lparr>parent_edge := parent_edge (search_state (g ! edge_start pe))\<rparr>\<rparr>]"
    have r: "bt goal ?g (acc @ [pe]) = Some r" using eq Some by simp
    have "g ! goal \<in> set g" using goal by simp
    then have pe: "P pe" using par Some by (auto simp: parents_satisfy_def)
    then have "g ! edge_start pe \<in> set g" using st by simp
    then have "\<And>e. parent_edge (search_state (g ! edge_start pe)) = Some e \<Longrightarrow> P e"
      using par by (auto simp: parents_satisfy_def)
    then have a: "parents_satisfy P ?g" using par by (intro parents_satisfy_update) simp_all
    have b: "\<forall>e \<in> set (acc @ [pe]). P e" using acc pe by simp
    have c: "\<And>e. P e \<Longrightarrow> edge_start e < length ?g" using st by simp
    have d: "goal < length ?g" using goal by simp
    show ?thesis by (rule IH[OF r a b c d])
  qed
qed

lemma parents_satisfy_reset: "parents_satisfy P (resetSearchStates g)"
  by (auto simp: parents_satisfy_def resetSearchStates_def reset_def)

lemma traversal_parents_ok:
  assumes wf: "well_formed graph" and lf: "lowest_first (queue_top rp)"
    and start: "start < length graph" and goal: "goal < length graph"
    and qn: "\<forall>x \<in> set (queue rp). snd x < length graph"
    and res: "findShortestGraphTraversal rp graph start goal bl = (Inr g, q')"
  shows "topology g = topology graph
         \<and> parents_satisfy (route_edge_ok graph bl (nodeid (graph ! goal))) g"
proof -
  let ?P = "route_edge_ok graph bl (nodeid (graph ! goal))"
  let ?g0 = "resetSearchStates graph"
  let ?g1 = "?g0[start := (?g0 ! start)\<lparr>search_state := (search_state (?g0 ! start))\<lparr>integrated_cost := Fin 0\<rparr>\<rparr>]"
  have gid: "nodeid (?g0 ! goal) = nodeid (graph ! goal)"
    using goal by (simp add: resetSearchStates_def)
  from res obtain its q tc where
    loop: "search_loop rp (nodeid (graph ! goal)) bl 0 (?g1, addNode (Fin 0) start (queue rp), 0)
             = Inr (its, g, q, tc)"
    unfolding findShortestGraphTraversal_def Let_def gid
    by (auto split: sum.splits if_splits)
  have "topology ?g1 = topology graph"
    by (simp add: topology_search_state topology_reset)
  moreover have "parents_satisfy ?P ?g1"
    using start
    by (intro parents_satisfy_update parents_satisfy_reset) (simp add: resetSearchStates_def reset_def)
  ultimately have "search_inv graph ?P ?g1 (addNode (Fin 0) start (queue rp))"
    using start qn by (simp add: search_inv_def addNode_def)
  from search_loop_search_inv[OF wf lf this loop] show ?thesis .
qed

text \<open>
  Claim C4: for every list of blocked ids and every call of \<open>findRoute\<close> that returns a
  route, an edge of the route whose id or whose end node's id is in the list ends at the
  goal: no other blocked edge occurs in the route. The graph is well formed, the queue
  pops a lowest element, and the elements that the schedule holds when the search begins
  (none, unless an earlier search was left by an exception) point to nodes of the graph.
\<close>

theorem blocked_edges_not_in_route:
  assumes wf: "well_formed graph" and lf: "lowest_first (queue_top rp)"
    and qn: "\<forall>x \<in> set (queue rp). snd x < length graph"
    and res: "findRoute rp graph start goal blocked_ids = Some (Inr route, rp')"
    and e: "e \<in> set (edges route)"
    and blocked: "edgeid e \<in> set blocked_ids \<or> nodeid (graph ! edge_end e) \<in> set blocked_ids"
  shows "isGoal (nodeid (graph ! goal)) (graph ! edge_end e)"
proof -
  let ?P = "route_edge_ok graph blocked_ids (nodeid (graph ! goal))"
  from res have start: "start < length graph" and goal: "goal < length graph"
    by (auto simp: findRoute_def split: if_splits)
  from res start goal obtain g q' where
    trav: "findShortestGraphTraversal rp graph start goal blocked_ids = (Inr g, q')"
    by (auto simp: findRoute_def split: if_splits sum.splits prod.splits)
  from res trav start goal obtain g' es where
    bk: "backtrack goal g [] = Some (g', es)" and route: "edges route = rev es"
    by (auto simp: findRoute_def split: if_splits option.splits)
  from traversal_parents_ok[OF wf lf start goal qn trav]
  have top: "topology g = topology graph" and par: "parents_satisfy ?P g" by simp_all
  have len: "length g = length graph" using top by (rule topology_length)
  have "\<forall>e \<in> set (snd (g', es)). ?P e"
  proof (rule backtrack_edges_satisfy[OF bk par])
    show "\<forall>e \<in> set []. ?P e" by simp
    show "\<And>e. ?P e \<Longrightarrow> edge_start e < length g" using len by (simp add: route_edge_ok_def)
    show "goal < length g" using goal len by simp
  qed
  then have "?P e" using e route by simp
  then show ?thesis using blocked by (simp add: route_edge_ok_def vetoed_def isGoal_def)
qed


theorem blocked_edges_not_in_route_witness:
  "well_formed three_nodes \<and> lowest_first (queue_top (configure 0 no_plugins first_min))
   \<and> queue (configure 0 no_plugins first_min) = []
   \<and> findRoute (configure 0 no_plugins first_min) three_nodes 0 2 [2]
       = Some (Inr \<lparr>start_node = 0, edges = [static_edge 10 0 1 1, static_edge 11 1 2 1],
                      route_cost = Fin 2\<rparr>, configure 0 no_plugins first_min)
   \<and> nodeid (three_nodes ! edge_end (static_edge 11 1 2 1)) \<in> set [2]
   \<and> isGoal (nodeid (three_nodes ! 2)) (three_nodes ! edge_end (static_edge 11 1 2 1))"
proof -
  let ?rp = "configure 0 no_plugins first_min"
  let ?route = "\<lparr>start_node = 0, edges = [static_edge 10 0 1 1, static_edge 11 1 2 1],
                 route_cost = Fin 2\<rparr>"
  have wf: "well_formed three_nodes"
    by (simp add: well_formed_def three_nodes_def plain_node_def static_edge_def)
  have lf: "lowest_first (queue_top ?rp)"
    by (simp add: configure_def lowest_first_first_min)
  have qn: "\<forall>x \<in> set (queue ?rp). snd x < length three_nodes"
    by (simp add: configure_def)
  have res: "findRoute ?rp three_nodes 0 2 [2] = Some (Inr ?route, ?rp)"
    by (simp add: planner_defs three_nodes_def)
  have e: "static_edge 11 1 2 1 \<in> set (edges ?route)" by simp
  have b: "edgeid (static_edge 11 1 2 1) \<in> set [2]
           \<or> nodeid (three_nodes ! edge_end (static_edge 11 1 2 1)) \<in> set [2]"
    by (simp add: three_nodes_def plain_node_def static_edge_def)
  have q0: "queue ?rp = []" by (simp add: configure_def)
  from blocked_edges_not_in_route[OF wf lf qn res e b] wf lf q0 res b show ?thesis
    by (simp add: static_edge_def)
qed
section \<open>The search finds a route of lowest cost\<close>

subsection \<open>The queue\<close>

lemma pop_decompose:
  assumes "lowest_first (queue_top rp)" and "q \<noteq> []"
  shows "\<exists>xs ys. q = xs @ popped rp q # ys \<and> rest rp q = xs @ ys"
proof -
  let ?i = "queue_top rp q"
  have i: "?i < length q" using assms by (simp add: lowest_first_def)
  have "q = take ?i q @ q ! ?i # drop (Suc ?i) q" using i by (rule id_take_nth_drop)
  then show ?thesis
    by (intro exI[of _ "take ?i q"] exI[of _ "drop (Suc ?i) q"])
       (simp add: popped_def rest_def getNextNode_def)
qed

lemma pop_set:
  assumes "lowest_first (queue_top rp)" and "q \<noteq> []"
  shows "set q = insert (popped rp q) (set (rest rp q))"
proof -
  from pop_decompose[OF assms] obtain xs ys where
    q: "q = xs @ popped rp q # ys" and r: "rest rp q = xs @ ys" by blast
  have "set q = set (xs @ popped rp q # ys)" using q by simp
  then show ?thesis unfolding r by simp
qed

lemma pop_length:
  assumes "lowest_first (queue_top rp)" and "q \<noteq> []"
  shows "length q = Suc (length (rest rp q))"
proof -
  from pop_decompose[OF assms] obtain xs ys where
    q: "q = xs @ popped rp q # ys" and r: "rest rp q = xs @ ys" by blast
  have "length q = length (xs @ popped rp q # ys)" using q by simp
  then show ?thesis unfolding r by simp
qed

lemma pop_distinct:
  assumes "lowest_first (queue_top rp)" and "q \<noteq> []" and "distinct q"
  shows "distinct (rest rp q)" and "popped rp q \<notin> set (rest rp q)"
proof -
  from pop_decompose[OF assms(1,2)] obtain xs ys where
    q: "q = xs @ popped rp q # ys" and r: "rest rp q = xs @ ys" by blast
  have d: "distinct (xs @ popped rp q # ys)" using assms(3) q by simp
  show "distinct (rest rp q)" using d unfolding r by simp
  show "popped rp q \<notin> set (rest rp q)" using d unfolding r by simp
qed

subsection \<open>Costs\<close>

lemma cost_less_iff: "d \<noteq> NInf \<Longrightarrow> cost_less (Fin p) d \<longleftrightarrow> \<not> cost_le d p"
  by (cases d) auto

lemma cost_le_Fin: "cost_le d r \<longleftrightarrow> (\<exists>c. d = Fin c \<and> c \<le> r)"
  by (cases d) auto

lemma cost_le_mono: "cost_le d r \<Longrightarrow> r \<le> r' \<Longrightarrow> cost_le d r'"
  by (cases d) auto

subsection \<open>The search state after an update\<close>

lemma cost_at_set_parent:
  "v < length g \<Longrightarrow> cost_at (set_parent g v e p t) u = (if u = v then Fin p else cost_at g u)"
  by (simp add: cost_at_def set_parent_def)

lemma parent_set_parent:
  "v < length g \<Longrightarrow> parent (set_parent g v e p t) u = (if u = v then Some e else parent g u)"
  by (simp add: parent_def set_parent_def)

lemma length_set_parent: "length (set_parent g v e p t) = length g"
  by (simp add: set_parent_def)

lemma topology_set_parent: "topology (set_parent g v e p t) = topology g"
  unfolding set_parent_def by (rule topology_update) simp_all

subsection \<open>Paths\<close>

lemma is_path_append:
  "is_path g u (es @ fs) v \<longleftrightarrow> (\<exists>z. is_path g u es z \<and> is_path g z fs v)"
  by (induction es arbitrary: u) auto

lemma is_path_snoc:
  "is_path g u (es @ [e]) v \<longleftrightarrow>
     (\<exists>z. is_path g u es z \<and> z < length g \<and> e \<in> set (neighbors (g ! z)) \<and> edge_end e = v)"
  by (auto simp: is_path_append)

lemma path_cost_snoc: "path_cost w (es @ [e]) = path_cost w es + w e"
  by (simp add: path_cost_def)

lemma reachable_edgeI:
  "is_path g s es u \<Longrightarrow> u < length g \<Longrightarrow> e \<in> set (neighbors (g ! u)) \<Longrightarrow> reachable_edge g s e"
  unfolding reachable_edge_def by blast

lemma length_traversable: "length (traversable ok g) = length g"
  by (simp add: traversable_def)

lemma neighbors_traversable:
  "b < length g \<Longrightarrow> set (neighbors (traversable ok g ! b)) = {e \<in> set (neighbors (g ! b)). ok e}"
  by (simp add: traversable_def)

lemma traversable_all: "traversable (\<lambda>e. True) g = g"
  by (simp add: traversable_def map_idI)

lemma priced_nonneg:
  assumes "priced rp gid g s ok w" and "reachable_edge (traversable ok g) s e"
  shows "0 \<le> w e"
proof -
  from assms(2) obtain u es where u: "is_path (traversable ok g) s es u" "u < length g"
    "e \<in> set (neighbors (traversable ok g ! u))"
    by (auto simp: reachable_edge_def length_traversable)
  then have "e \<in> set (neighbors (g ! u))" and "ok e" by (simp_all add: neighbors_traversable)
  then show ?thesis using assms(1) u(1,2) unfolding priced_def by metis
qed

subsection \<open>The expanded nodes after a step\<close>

lemma expanded_stale:
  assumes "set q = insert p (set q')" and "fst p \<noteq> cost_at g (snd p)"
  shows "expanded g q' = expanded g q"
proof -
  have "(Fin c, b) \<notin> set q' \<longleftrightarrow> (Fin c, b) \<notin> set q" if "cost_at g b = Fin c" for b c
  proof -
    have "(Fin c, b) \<noteq> p" using that assms(2) by auto
    then show ?thesis using assms(1) by auto
  qed
  then show ?thesis unfolding expanded_def by auto
qed

lemma expanded_fresh:
  assumes "set q = insert (Fin c, x) (set q')" and "(Fin c, x) \<notin> set q'"
    and "cost_at g x = Fin c" and "x < length g"
  shows "expanded g q' = insert x (expanded g q)"
proof (rule set_eqI)
  fix b
  show "b \<in> expanded g q' \<longleftrightarrow> b \<in> insert x (expanded g q)"
  proof (cases "b = x")
    case True
    then show ?thesis using assms by (simp add: expanded_def)
  next
    case False
    then show ?thesis using assms(1) by (auto simp: expanded_def)
  qed
qed

lemma expanded_relax:
  assumes "v < length g" and "v \<notin> expanded g q"
  shows "expanded (set_parent g v e p t) (q @ [(Fin p, v)]) = expanded g q"
proof (rule set_eqI)
  fix b
  show "b \<in> expanded (set_parent g v e p t) (q @ [(Fin p, v)]) \<longleftrightarrow> b \<in> expanded g q"
  proof (cases "b = v")
    case True
    then show ?thesis using assms by (simp add: expanded_def cost_at_set_parent length_set_parent)
  next
    case False
    then show ?thesis using assms(1) by (auto simp: expanded_def cost_at_set_parent length_set_parent)
  qed
qed

subsection \<open>Lower bounds from the invariant\<close>

lemma path_bound:
  assumes len: "length g = length g0" and s0: "cost_at g s = Fin 0"
    and rel: "relaxed g0 w g q []"
    and nn: "\<And>e. reachable_edge g0 s e \<Longrightarrow> 0 \<le> w e"
    and path: "is_path g0 s es v"
  shows "cost_le (cost_at g v) (path_cost w es) \<or> (\<exists>x \<in> set q. cost_le (fst x) (path_cost w es))"
  using path
proof (induction es arbitrary: v rule: rev_induct)
  case Nil
  then show ?case using s0 by (simp add: path_cost_def)
next
  case (snoc e es)
  from snoc.prems obtain z where z: "is_path g0 s es z" "z < length g0"
    "e \<in> set (neighbors (g0 ! z))" "edge_end e = v"
    by (auto simp: is_path_snoc)
  have we: "0 \<le> w e" using z(1,2,3) by (intro nn reachable_edgeI)
  have cst: "path_cost w (es @ [e]) = path_cost w es + w e" by (rule path_cost_snoc)
  from snoc.IH[OF z(1)] show ?case
  proof
    assume "\<exists>x \<in> set q. cost_le (fst x) (path_cost w es)"
    then obtain x where "x \<in> set q" "cost_le (fst x) (path_cost w es)" by blast
    then have "x \<in> set q \<and> cost_le (fst x) (path_cost w (es @ [e]))"
      using we cst by (auto intro: cost_le_mono)
    then show ?thesis by blast
  next
    assume "cost_le (cost_at g z) (path_cost w es)"
    then obtain cz where cz: "cost_at g z = Fin cz" "cz \<le> path_cost w es"
      by (auto simp: cost_le_Fin)
    show ?thesis
    proof (cases "z \<in> expanded g q")
      case True
      then have "cost_le (cost_at g (edge_end e)) (cz + w e)"
        using rel cz(1) z(3) by (auto simp: relaxed_def)
      then have "cost_le (cost_at g v) (path_cost w (es @ [e]))"
        using cz(2) cst z(4) by (auto intro: cost_le_mono)
      then show ?thesis by blast
    next
      case False
      then have "(Fin cz, z) \<in> set q" using cz(1) z(2) len by (auto simp: expanded_def)
      moreover have "cost_le (fst (Fin cz, z)) (path_cost w (es @ [e]))" using cz(2) cst we by simp
      ultimately show ?thesis by blast
    qed
  qed
qed

lemma pop_optimal:
  assumes len: "length g = length g0" and s0: "cost_at g s = Fin 0"
    and rel: "relaxed g0 w g q []"
    and nn: "\<And>e. reachable_edge g0 s e \<Longrightarrow> 0 \<le> w e"
    and lf: "lowest_first (queue_top rp)"
    and fresh: "cost_at g (snd (popped rp q)) = Fin c" and pc: "fst (popped rp q) = Fin c"
  shows "optimal g0 w s (snd (popped rp q)) c"
  unfolding optimal_def
proof (intro allI impI)
  fix es assume "is_path g0 s es (snd (popped rp q))"
  from path_bound[OF len s0 rel nn this]
  show "c \<le> path_cost w es"
  proof
    assume "cost_le (cost_at g (snd (popped rp q))) (path_cost w es)"
    then show ?thesis using fresh by simp
  next
    assume "\<exists>x \<in> set q. cost_le (fst x) (path_cost w es)"
    then obtain x cx where x: "x \<in> set q" "fst x = Fin cx" "cx \<le> path_cost w es"
      by (auto simp: cost_le_Fin)
    have "\<not> cost_less (fst x) (fst (popped rp q))" using lf x(1) by (rule popped_least)
    then have "c \<le> cx" using x(2) pc by simp
    then show ?thesis using x(3) by simp
  qed
qed

subsection \<open>A stale element is popped\<close>

lemma inv_stale:
  assumes inv: "dijkstra_inv g0 ok w s t its g q []"
    and lf: "lowest_first (queue_top rp)" and ne: "q \<noteq> []"
    and st: "fst (popped rp q) \<noteq> cost_at g (snd (popped rp q))"
  shows "dijkstra_inv g0 ok w s t (its + 1) g (rest rp q) []"
proof -
  let ?T = "traversable ok g0"
  have qs: "set q = insert (popped rp q) (set (rest rp q))" using lf ne by (rule pop_set)
  have E: "expanded g (rest rp q) = expanded g q" using qs st by (rule expanded_stale)
  have qok: "queue_ok g q" using inv by (simp add: dijkstra_inv_def)
  have "distinct (rest rp q)" using pop_distinct(1)[OF lf ne] qok by (simp add: queue_ok_def)
  then have q': "queue_ok g (rest rp q)" using qok qs by (auto simp: queue_ok_def)
  have "count_ok g0 its g q 0" using inv by (simp add: dijkstra_inv_def)
  then have cnt: "count_ok g0 (its + 1) g (rest rp q) 0"
    using pop_length[OF lf ne] by (simp add: count_ok_def E)
  have "expanded_opt ?T w s g (rest rp q)" using inv by (simp add: dijkstra_inv_def expanded_opt_def E)
  moreover have "relaxed ?T w g (rest rp q) []" using inv by (simp add: dijkstra_inv_def relaxed_def E)
  moreover have "parents_ok ?T w s g (rest rp q)" using inv by (simp add: dijkstra_inv_def parents_ok_def E)
  moreover have "t \<notin> expanded g (rest rp q)" using inv by (simp add: dijkstra_inv_def E)
  ultimately show ?thesis using inv q' cnt by (simp add: dijkstra_inv_def)
qed

subsection \<open>A node is popped at its cost\<close>

lemma inv_fresh:
  assumes inv: "dijkstra_inv g0 ok w s t its g q []"
    and nn: "\<And>e. reachable_edge (traversable ok g0) s e \<Longrightarrow> 0 \<le> w e"
    and lf: "lowest_first (queue_top rp)" and ne: "q \<noteq> []"
    and fresh: "cost_at g (snd (popped rp q)) = fst (popped rp q)"
    and ng: "snd (popped rp q) \<noteq> t"
  shows "\<exists>c. fst (popped rp q) = Fin c \<and> 0 \<le> c
           \<and> dijkstra_inv g0 ok w s t (its + 1) g (rest rp q) (neighbors (g0 ! snd (popped rp q)))
           \<and> snd (popped rp q) \<in> expanded g (rest rp q)"
proof -
  let ?x = "snd (popped rp q)" and ?T = "traversable ok g0"
  have top: "topology g = topology g0" using inv by (simp add: dijkstra_inv_def)
  have len: "length g = length g0" using top by (rule topology_length)
  have qok: "queue_ok g q" using inv by (simp add: dijkstra_inv_def)
  have pin: "popped rp q \<in> set q" using lf ne by (rule popped_in_queue)
  then obtain c where pc: "fst (popped rp q) = Fin c" and c0: "0 \<le> c" and x: "?x < length g"
    using qok by (auto simp: queue_ok_def)
  have pq: "popped rp q = (Fin c, ?x)" using pc by (simp add: prod_eq_iff)
  have fr: "cost_at g ?x = Fin c" using fresh pc by simp
  have qs: "set q = insert (Fin c, ?x) (set (rest rp q))" using pop_set[OF lf ne] pq by simp
  have nin: "(Fin c, ?x) \<notin> set (rest rp q)"
    using pop_distinct(2)[OF lf ne] qok pq by (simp add: queue_ok_def)
  have E: "expanded g (rest rp q) = insert ?x (expanded g q)"
    using qs nin fr x by (rule expanded_fresh)
  have xE: "?x \<notin> expanded g q" using pin pq fr by (auto simp: expanded_def)
  have "distinct (rest rp q)" using pop_distinct(1)[OF lf ne] qok by (simp add: queue_ok_def)
  then have q': "queue_ok g (rest rp q)" using qok qs by (auto simp: queue_ok_def)
  have lenT: "length g = length ?T" using len by (simp add: length_traversable)
  have xs: "set (neighbors (?T ! ?x)) \<subseteq> set (neighbors (g0 ! ?x))"
    using x len by (auto simp: neighbors_traversable)
  have rel: "relaxed ?T w g q []" using inv by (simp add: dijkstra_inv_def)
  have s0: "cost_at g s = Fin 0" using inv by (simp add: dijkstra_inv_def)
  have opt: "optimal ?T w s ?x c" using lenT s0 rel nn lf fr pc by (rule pop_optimal)
  have eo: "expanded_opt ?T w s g (rest rp q)"
    using inv opt fr by (auto simp: dijkstra_inv_def expanded_opt_def E)
  have rl: "relaxed ?T w g (rest rp q) (neighbors (g0 ! ?x))"
    using rel fr xs unfolding relaxed_def E by auto
  have po: "parents_ok ?T w s g (rest rp q)"
    using inv unfolding dijkstra_inv_def parents_ok_def E by auto
  have tn: "t \<notin> expanded g (rest rp q)" using inv ng by (simp add: dijkstra_inv_def E)
  have xin: "?x \<in> {b. b < length g0 \<and> b \<notin> expanded g q}"
    using x len xE by simp
  have U: "{b. b < length g0 \<and> b \<notin> expanded g (rest rp q)}
           = {b. b < length g0 \<and> b \<notin> expanded g q} - {?x}"
    unfolding E by auto
  have fin: "finite {b. b < length g0 \<and> b \<notin> expanded g q}" by simp
  have sm: "(\<Sum>b \<in> {b. b < length g0 \<and> b \<notin> expanded g q}. length (neighbors (g0 ! b)))
        = length (neighbors (g0 ! ?x))
          + (\<Sum>b \<in> {b. b < length g0 \<and> b \<notin> expanded g q} - {?x}. length (neighbors (g0 ! b)))"
    using fin xin by (rule sum.remove)
  have "count_ok g0 its g q 0" using inv by (simp add: dijkstra_inv_def)
  then have cnt: "count_ok g0 (its + 1) g (rest rp q) (length (neighbors (g0 ! ?x)))"
    using pop_length[OF lf ne] unfolding count_ok_def U sm by simp
  have "dijkstra_inv g0 ok w s t (its + 1) g (rest rp q) (neighbors (g0 ! ?x))"
    using top s0 q' inv eo rl po cnt tn by (simp add: dijkstra_inv_def)
  moreover have "?x \<in> expanded g (rest rp q)" using E by simp
  ultimately show ?thesis using pc c0 by blast
qed

subsection \<open>One edge of the expanded node\<close>

lemma wf_edge:
  assumes "well_formed g0" and "b < length g0" and "e \<in> set (neighbors (g0 ! b))"
  shows "edge_start e = b" and "edge_end e < length g0"
  using assms by (auto simp: well_formed_iff)

lemma inv_skip:
  assumes inv: "dijkstra_inv g0 ok w s t its g q (e # rem)"
    and wf: "well_formed g0"
    and x: "x \<in> expanded g q" and dx: "cost_at g x = Fin c"
    and e: "e \<in> set (neighbors (g0 ! x))"
    and le: "cost_le (cost_at g (edge_end e)) (c + w e)"
  shows "dijkstra_inv g0 ok w s t its g q rem"
proof -
  let ?T = "traversable ok g0"
  have top: "topology g = topology g0" using inv by (simp add: dijkstra_inv_def)
  have len: "length g = length g0" using top by (rule topology_length)
  have rel: "relaxed ?T w g q (e # rem)" using inv by (simp add: dijkstra_inv_def)
  have xn: "x < length g0" using x len by (simp add: expanded_def)
  have "relaxed ?T w g q rem"
    unfolding relaxed_def
  proof (intro ballI allI impI)
    fix b cb e'
    assume b: "b \<in> expanded g q" and cb: "cost_at g b = Fin cb" and e': "e' \<in> set (neighbors (?T ! b))"
    have bn: "b < length g0" using b len by (simp add: expanded_def)
    have e0: "e' \<in> set (neighbors (g0 ! b))" using e' bn by (simp add: neighbors_traversable)
    from rel b cb e' have old: "cost_le (cost_at g (edge_end e')) (cb + w e') \<or> e' \<in> set (e # rem)"
      by (simp add: relaxed_def)
    show "cost_le (cost_at g (edge_end e')) (cb + w e') \<or> e' \<in> set rem"
    proof (cases "e' = e")
      case True
      have "b = x" using wf_edge(1)[OF wf bn e0] wf_edge(1)[OF wf xn e] True by simp
      then have "cb = c" using cb dx by simp
      then show ?thesis using le True by simp
    next
      case False
      then show ?thesis using old by auto
    qed
  qed
  moreover have "count_ok g0 its g q (length rem)"
    using inv by (simp add: dijkstra_inv_def count_ok_def)
  ultimately show ?thesis using inv by (simp add: dijkstra_inv_def)
qed

lemma inv_reject:
  assumes inv: "dijkstra_inv g0 ok w s t its g q (e # rem)" and nok: "\<not> ok e"
  shows "dijkstra_inv g0 ok w s t its g q rem"
proof -
  let ?T = "traversable ok g0"
  have top: "topology g = topology g0" using inv by (simp add: dijkstra_inv_def)
  have len: "length g = length g0" using top by (rule topology_length)
  have rel: "relaxed ?T w g q (e # rem)" using inv by (simp add: dijkstra_inv_def)
  have "relaxed ?T w g q rem"
    unfolding relaxed_def
  proof (intro ballI allI impI)
    fix b cb e'
    assume b: "b \<in> expanded g q" and cb: "cost_at g b = Fin cb" and e': "e' \<in> set (neighbors (?T ! b))"
    have bn: "b < length g0" using b len by (simp add: expanded_def)
    have "ok e'" using e' bn by (simp add: neighbors_traversable)
    then have "e' \<noteq> e" using nok by auto
    moreover from rel b cb e'
    have "cost_le (cost_at g (edge_end e')) (cb + w e') \<or> e' \<in> set (e # rem)"
      by (simp add: relaxed_def)
    ultimately show "cost_le (cost_at g (edge_end e')) (cb + w e') \<or> e' \<in> set rem" by auto
  qed
  moreover have "count_ok g0 its g q (length rem)"
    using inv by (simp add: dijkstra_inv_def count_ok_def)
  ultimately show ?thesis using inv by (simp add: dijkstra_inv_def)
qed

lemma inv_relax:
  assumes inv: "dijkstra_inv g0 ok w s t its g q (e # rem)"
    and wf: "well_formed g0"
    and x: "x \<in> expanded g q" and dx: "cost_at g x = Fin c" and c0: "0 \<le> c"
    and e: "e \<in> set (neighbors (g0 ! x))" and oke: "ok e"
    and we: "0 \<le> w e"
    and nle: "\<not> cost_le (cost_at g (edge_end e)) (c + w e)"
  shows "dijkstra_inv g0 ok w s t its (set_parent g (edge_end e) e (c + w e) tc)
           (q @ [(Fin (c + w e), edge_end e)]) rem"
    and "expanded (set_parent g (edge_end e) e (c + w e) tc) (q @ [(Fin (c + w e), edge_end e)])
           = expanded g q"
    and "cost_at (set_parent g (edge_end e) e (c + w e) tc) x = Fin c"
proof -
  let ?v = "edge_end e" and ?p = "c + w e"
  let ?g = "set_parent g ?v e ?p tc" and ?q = "q @ [(Fin ?p, ?v)]"
  let ?T = "traversable ok g0"
  have top: "topology g = topology g0" using inv by (simp add: dijkstra_inv_def)
  have len: "length g = length g0" using top by (rule topology_length)
  have xn: "x < length g0" using x len by (simp add: expanded_def)
  have es: "edge_start e = x" and vn: "?v < length g0" using wf_edge[OF wf xn e] by simp_all
  have vg: "?v < length g" using vn len by simp
  have eT: "e \<in> set (neighbors (?T ! x))" using e oke xn by (simp add: neighbors_traversable)
  have xT: "x < length ?T" using xn by (simp add: length_traversable)
  have s0: "cost_at g s = Fin 0" using inv by (simp add: dijkstra_inv_def)
  have qok: "queue_ok g q" using inv by (simp add: dijkstra_inv_def)
  have real: "realised ?T w s g" using inv by (simp add: dijkstra_inv_def)
  have eo: "expanded_opt ?T w s g q" using inv by (simp add: dijkstra_inv_def)
  have rel: "relaxed ?T w g q (e # rem)" using inv by (simp add: dijkstra_inv_def)
  have po: "parents_ok ?T w s g q" using inv by (simp add: dijkstra_inv_def)
  have cnt: "count_ok g0 its g q (length (e # rem))" using inv by (simp add: dijkstra_inv_def)
  have tn: "t \<notin> expanded g q" using inv by (simp add: dijkstra_inv_def)
  have so: "sums_ok g" using inv by (simp add: dijkstra_inv_def)
  have rk: "ranked g" using inv by (simp add: dijkstra_inv_def)
  txt \<open>The new cost of the neighbor is the cost of a path.\<close>
  from real xT dx obtain pi where pi: "is_path ?T s pi x" "path_cost w pi = c"
    by (auto simp: realised_def)
  have pv: "is_path ?T s (pi @ [e]) ?v" using pi(1) xT eT by (auto simp: is_path_snoc)
  have cv: "path_cost w (pi @ [e]) = ?p" using pi(2) by (simp add: path_cost_snoc)
  txt \<open>The neighbor has not been expanded, and it is neither the start nor the node itself.\<close>
  have vne: "?v \<notin> expanded g q"
  proof
    assume v: "?v \<in> expanded g q"
    then obtain dv where dv: "cost_at g ?v = Fin dv" by (auto simp: expanded_def)
    then have "optimal ?T w s ?v dv" using eo v by (simp add: expanded_opt_def)
    then have "dv \<le> ?p" using pv cv by (auto simp: optimal_def)
    then show False using nle dv by simp
  qed
  have vs: "?v \<noteq> s"
  proof
    assume "?v = s"
    then have "cost_le (cost_at g ?v) ?p" using s0 c0 we by simp
    then show False using nle by simp
  qed
  have vx: "?v \<noteq> x" using vne x by auto
  have E: "expanded ?g ?q = expanded g q" using vg vne by (rule expanded_relax)
  have D: "\<And>u. cost_at ?g u = (if u = ?v then Fin ?p else cost_at g u)"
    using vg by (rule cost_at_set_parent)
  have P: "\<And>u. parent ?g u = (if u = ?v then Some e else parent g u)"
    using vg by (rule parent_set_parent)
  show "expanded ?g ?q = expanded g q" by (rule E)
  show "cost_at ?g x = Fin c" using D vx dx by simp
  have c1: "topology ?g = topology g0" using top by (simp add: topology_set_parent)
  have c2: "cost_at ?g s = Fin 0" using D vs s0 by simp
  have c3: "queue_ok ?g ?q"
  proof -
    have old: "\<And>y. y \<in> set q \<Longrightarrow>
        snd y < length g \<and> (\<exists>cy. fst y = Fin cy \<and> 0 \<le> cy \<and> cost_le (cost_at g (snd y)) cy)"
      using qok by (simp add: queue_ok_def)
    have "(Fin ?p, ?v) \<notin> set q"
    proof
      assume "(Fin ?p, ?v) \<in> set q"
      from old[OF this] show False using nle by simp
    qed
    then have d: "distinct ?q" using qok by (simp add: queue_ok_def)
    have "snd y < length ?g \<and> (\<exists>cy. fst y = Fin cy \<and> 0 \<le> cy \<and> cost_le (cost_at ?g (snd y)) cy)"
      if y: "y \<in> set ?q" for y
    proof (cases "y \<in> set q")
      case True
      from old[OF True] obtain cy where o: "snd y < length g" "fst y = Fin cy" "0 \<le> cy"
        "cost_le (cost_at g (snd y)) cy" by blast
      show ?thesis
      proof (cases "snd y = ?v")
        case True
        with o obtain dv where dv: "cost_at g ?v = Fin dv" "dv \<le> cy" by (auto simp: cost_le_Fin)
        then have "?p < dv" using nle by simp
        then show ?thesis using o True dv D by (simp add: length_set_parent)
      next
        case False
        then show ?thesis using o D by (simp add: length_set_parent)
      qed
    next
      case False
      then have "y = (Fin ?p, ?v)" using y by simp
      then show ?thesis using vg c0 we D by (simp add: length_set_parent)
    qed
    then show ?thesis using d by (simp add: queue_ok_def)
  qed
  have c4: "realised ?T w s ?g"
    unfolding realised_def length_traversable
  proof (intro allI impI)
    fix u cu assume u: "u < length g0" and cu: "cost_at ?g u = Fin cu"
    show "\<exists>es. is_path ?T s es u \<and> path_cost w es = cu"
    proof (cases "u = ?v")
      case True
      then have "cu = ?p" using cu D by simp
      then show ?thesis using pv cv True by blast
    next
      case False
      then have "cost_at g u = Fin cu" using cu D by simp
      then show ?thesis using real u by (simp add: realised_def length_traversable)
    qed
  qed
  have c5: "expanded_opt ?T w s ?g ?q"
    unfolding expanded_opt_def E
  proof (intro ballI allI impI)
    fix b cb assume b: "b \<in> expanded g q" and cb: "cost_at ?g b = Fin cb"
    have "b \<noteq> ?v" using b vne by auto
    then have "cost_at g b = Fin cb" using cb D by simp
    then show "optimal ?T w s b cb" using eo b by (simp add: expanded_opt_def)
  qed
  have c6: "relaxed ?T w ?g ?q rem"
    unfolding relaxed_def E
  proof (intro ballI allI impI)
    fix b cb e'
    assume b: "b \<in> expanded g q" and cb: "cost_at ?g b = Fin cb" and e': "e' \<in> set (neighbors (?T ! b))"
    have bn: "b < length g0" using b len by (simp add: expanded_def)
    have e0: "e' \<in> set (neighbors (g0 ! b))" using e' bn by (simp add: neighbors_traversable)
    have "b \<noteq> ?v" using b vne by auto
    then have cb': "cost_at g b = Fin cb" using cb D by simp
    from rel b cb' e' have old: "cost_le (cost_at g (edge_end e')) (cb + w e') \<or> e' \<in> set (e # rem)"
      by (simp add: relaxed_def)
    show "cost_le (cost_at ?g (edge_end e')) (cb + w e') \<or> e' \<in> set rem"
    proof (cases "e' = e")
      case True
      have "b = x" using wf_edge(1)[OF wf bn e0] es True by simp
      then have "cb = c" using cb' dx by simp
      then show ?thesis using True D by simp
    next
      case False
      show ?thesis
      proof (cases "e' \<in> set rem")
        case True
        then show ?thesis by simp
      next
        case False
        then have o: "cost_le (cost_at g (edge_end e')) (cb + w e')" using old \<open>e' \<noteq> e\<close> by simp
        show ?thesis
        proof (cases "edge_end e' = ?v")
          case True
          with o obtain dv where dv: "cost_at g ?v = Fin dv" "dv \<le> cb + w e'"
            by (auto simp: cost_le_Fin)
          then have "?p < dv" using nle by simp
          then show ?thesis using True dv D by simp
        next
          case False
          then show ?thesis using o D by simp
        qed
      qed
    qed
  qed
  have c7: "parents_ok ?T w s ?g ?q"
    unfolding parents_ok_def E length_traversable
  proof (intro allI impI)
    fix u assume u: "u < length g0"
    from po u have o1: "parent g u = None \<longleftrightarrow> cost_at g u = PInf \<or> u = s"
      by (simp add: parents_ok_def length_traversable)
    have a: "parent ?g u = None \<longleftrightarrow> cost_at ?g u = PInf \<or> u = s"
      using o1 vs P D by (cases "u = ?v") simp_all
    have b: "edge_end e' = u \<and> edge_start e' \<in> expanded g q
          \<and> e' \<in> set (neighbors (?T ! edge_start e'))
          \<and> (\<exists>c'. cost_at ?g (edge_start e') = Fin c' \<and> cost_at ?g u = Fin (c' + w e'))"
      if pe: "parent ?g u = Some e'" for e'
    proof (cases "u = ?v")
      case True
      then have "e' = e" using pe P by simp
      then show ?thesis using True es x eT D vx dx by simp
    next
      case False
      then have "parent g u = Some e'" using pe P by simp
      with po u have o2: "edge_end e' = u" "edge_start e' \<in> expanded g q"
        "e' \<in> set (neighbors (?T ! edge_start e'))"
        "\<exists>c'. cost_at g (edge_start e') = Fin c' \<and> cost_at g u = Fin (c' + w e')"
        by (simp_all add: parents_ok_def length_traversable)
      have "edge_start e' \<noteq> ?v" using o2(2) vne by auto
      then show ?thesis using o2 False D by simp
    qed
    show "(parent ?g u = None \<longleftrightarrow> cost_at ?g u = PInf \<or> u = s)
       \<and> (\<forall>e'. parent ?g u = Some e' \<longrightarrow>
             edge_end e' = u \<and> edge_start e' \<in> expanded g q
             \<and> e' \<in> set (neighbors (?T ! edge_start e'))
             \<and> (\<exists>c'. cost_at ?g (edge_start e') = Fin c' \<and> cost_at ?g u = Fin (c' + w e')))"
      using a b by blast
  qed
  have c8: "count_ok g0 its ?g ?q (length rem)"
    using cnt by (simp add: count_ok_def E)
  have c9: "t \<notin> expanded ?g ?q" using tn E by simp
  have c10: "sums_ok ?g"
    using so D by (simp add: sums_ok_def length_set_parent)
  have c11: "ranked ?g"
  proof -
    from rk obtain rank :: "nat \<Rightarrow> nat" where
      r: "\<And>u e'. u < length g \<Longrightarrow> parent g u = Some e' \<Longrightarrow> rank (edge_start e') < rank u"
      unfolding ranked_def by blast
    define rank' where "rank' = rank(?v := Suc (rank x))"
    have "rank' (edge_start e') < rank' u" if u: "u < length ?g" and pe: "parent ?g u = Some e'"
      for u e'
    proof (cases "u = ?v")
      case True
      then have "e' = e" using pe P by simp
      then show ?thesis using True es vx by (simp add: rank'_def)
    next
      case False
      have ug: "u < length g" using u by (simp add: length_set_parent)
      have pg: "parent g u = Some e'" using pe P False by simp
      then have "edge_start e' \<in> expanded g q"
        using po ug len by (simp add: parents_ok_def length_traversable)
      then have "edge_start e' \<noteq> ?v" using vne by auto
      then show ?thesis using r[OF ug pg] False by (simp add: rank'_def)
    qed
    then show ?thesis unfolding ranked_def by blast
  qed
  show "dijkstra_inv g0 ok w s t its ?g ?q rem"
    using c1 c2 c3 c4 c5 c6 c7 c8 c9 c10 c11 by (simp add: dijkstra_inv_def)
qed

subsection \<open>Pricing without blocked ids\<close>

lemma getTraversalCost_no_blocked:
  "getTraversalCost rp gid g e sc [] = getTraversalCost rp gid g' e sc []"
  by (simp add: getTraversalCost_def)

lemma priced_edge:
  assumes "priced rp gid g0 s ok w" and "is_path (traversable ok g0) s es u"
    and "u < length g0" and "e \<in> set (neighbors (g0 ! u))"
  shows "ok e \<Longrightarrow> getTraversalCost rp gid g e sc [] = Inr (True, w e)"
    and "ok e \<Longrightarrow> 0 \<le> w e"
    and "\<not> ok e \<Longrightarrow> \<exists>sc'. getTraversalCost rp gid g e sc [] = Inr (False, sc')"
proof -
  have p: "if ok e then 0 \<le> w e \<and> getTraversalCost rp gid g0 e sc [] = Inr (True, w e)
           else (\<exists>sc'. getTraversalCost rp gid g0 e sc [] = Inr (False, sc'))"
    using assms unfolding priced_def by blast
  have same: "getTraversalCost rp gid g e sc [] = getTraversalCost rp gid g0 e sc []"
    by (rule getTraversalCost_no_blocked)
  show "ok e \<Longrightarrow> getTraversalCost rp gid g e sc [] = Inr (True, w e)" using p same by simp
  show "ok e \<Longrightarrow> 0 \<le> w e" using p by simp
  show "\<not> ok e \<Longrightarrow> \<exists>sc'. getTraversalCost rp gid g e sc [] = Inr (False, sc')"
    using p same by simp
qed

lemma relax_edge_rejected:
  assumes "getTraversalCost rp gid g e tc bl = Inr (False, t)"
  shows "relax_edge rp gid bl c e (g, q, tc) = Inr (g, q, t)"
  using assms by (simp add: relax_edge_def)

lemma relax_edge_priced:
  assumes "getTraversalCost rp gid g e tc [] = Inr (True, t)"
    and "float_add (Fin c) t = Fin (c + t)"
  shows "relax_edge rp gid [] (Fin c) e (g, q, tc) =
     Inr (if cost_less (Fin (c + t)) (cost_at g (edge_end e))
          then (set_parent g (edge_end e) e (c + t) t, q @ [(Fin (c + t), edge_end e)], t)
          else (g, q, t))"
  using assms by (simp add: relax_edge_def set_parent_def cost_at_def addNode_def)

lemma relax_edge_total:
  assumes "getTraversalCost rp gid g e tc bl = Inr p"
  shows "\<exists>r. relax_edge rp gid bl c e (g, q, tc) = Inr r"
  using assms by (cases p) (simp add: relax_edge_def)

lemma expand_edges_total:
  assumes "\<forall>e \<in> set es. \<forall>g sc. \<exists>p. getTraversalCost rp gid g e sc [] = Inr p"
  shows "\<exists>r. expand_edges rp gid [] c es st = Inr r"
  using assms
proof (induction es arbitrary: st)
  case Nil
  show ?case by (rule exI[of _ st]) simp
next
  case (Cons e es)
  obtain g q tc where st: "st = (g, q, tc)" by (metis prod_cases3)
  have "\<exists>p. getTraversalCost rp gid g e tc [] = Inr p" using Cons.prems by simp
  then obtain p where gt: "getTraversalCost rp gid g e tc [] = Inr p" by (rule exE)
  from relax_edge_total[OF gt] obtain st' where r: "relax_edge rp gid [] c e st = Inr st'"
    unfolding st by blast
  have "\<forall>e \<in> set es. \<forall>g sc. \<exists>p. getTraversalCost rp gid g e sc [] = Inr p"
    using Cons.prems by simp
  from Cons.IH[OF this] obtain r' where "expand_edges rp gid [] c es st' = Inr r'" by blast
  then have "expand_edges rp gid [] c (e # es) st = Inr r'" using r by simp
  then show ?case by (rule exI)
qed

subsection \<open>The expansion of a node\<close>

lemma inv_expand:
  assumes wf: "well_formed g0" and pr: "priced rp gid g0 s ok w"
    and exs: "exact_sums (traversable ok g0) s w"
    and inv: "dijkstra_inv g0 ok w s t its g q (neighbors (g0 ! x))"
    and x: "x \<in> expanded g q" and dx: "cost_at g x = Fin c" and c0: "0 \<le> c"
    and ex: "expand_edges rp gid [] (Fin c) (neighbors (g0 ! x)) (g, q, tc) = Inr (g', q', tc')"
  shows "dijkstra_inv g0 ok w s t its g' q' []"
proof -
  let ?T = "traversable ok g0"
  have xn: "x < length g0"
  proof -
    have "topology g = topology g0" using inv by (simp add: dijkstra_inv_def)
    then have "length g = length g0" by (rule topology_length)
    then show ?thesis using x by (simp add: expanded_def)
  qed
  have xT: "x < length ?T" using xn by (simp add: length_traversable)
  have "realised ?T w s g" using inv by (simp add: dijkstra_inv_def)
  then obtain pi where pi: "is_path ?T s pi x" "path_cost w pi = c"
    using xT dx by (auto simp: realised_def)
  have "expanded_opt ?T w s g q" using inv by (simp add: dijkstra_inv_def)
  then have opt: "optimal ?T w s x (path_cost w pi)" using x dx pi(2) by (simp add: expanded_opt_def)
  define J where "J = (\<lambda>(rem :: Edge list) (st :: Graph \<times> NodeQueue \<times> real).
     set rem \<subseteq> set (neighbors (g0 ! x))
     \<and> dijkstra_inv g0 ok w s t its (fst st) (fst (snd st)) rem
     \<and> x \<in> expanded (fst st) (fst (snd st)) \<and> cost_at (fst st) x = Fin c)"
  have "J [] (g', q', tc')"
  proof (rule expand_edges_rule[OF ex, of J])
    show "J (neighbors (g0 ! x)) (g, q, tc)" using inv x dx by (simp add: J_def)
  next
    fix e rem st st'
    assume j: "J (e # rem) st" and r: "relax_edge rp gid [] (Fin c) e st = Inr st'"
    obtain g1 q1 tc1 where st: "st = (g1, q1, tc1)" by (metis prod_cases3)
    have e: "e \<in> set (neighbors (g0 ! x))" and sub: "set rem \<subseteq> set (neighbors (g0 ! x))"
      and i1: "dijkstra_inv g0 ok w s t its g1 q1 (e # rem)"
      and x1: "x \<in> expanded g1 q1" and d1: "cost_at g1 x = Fin c"
      using j by (simp_all add: J_def st)
    note pe = priced_edge(1)[OF pr pi(1) xn e, of g1 tc1] priced_edge(2)[OF pr pi(1) xn e]
      priced_edge(3)[OF pr pi(1) xn e, of g1 tc1]
    show "J rem st'"
    proof (cases "ok e")
      case False
      from pe(3)[OF False] obtain sc' where
        "getTraversalCost rp gid g1 e tc1 [] = Inr (False, sc')" by blast
      then have "relax_edge rp gid [] (Fin c) e (g1, q1, tc1) = Inr (g1, q1, sc')"
        by (rule relax_edge_rejected)
      then have "st' = (g1, q1, sc')" using r st by simp
      moreover have "dijkstra_inv g0 ok w s t its g1 q1 rem" using i1 False by (rule inv_reject)
      ultimately show ?thesis using sub x1 d1 by (simp add: J_def)
    next
      case True
      note gt = pe(1)[OF True] and we = pe(2)[OF True]
      have top1: "topology g1 = topology g0" using i1 by (simp add: dijkstra_inv_def)
      have len1: "length g1 = length g0" using top1 by (rule topology_length)
      have vn: "edge_end e < length g1" using wf_edge(2)[OF wf xn e] len1 by simp
      have eT: "e \<in> set (neighbors (?T ! x))" using e True xn by (simp add: neighbors_traversable)
      have "float_add (Fin (path_cost w pi)) (w e) = Fin (path_cost w pi + w e)"
        using exs pi(1) opt xT eT unfolding exact_sums_def by blast
      then have exact: "float_add (Fin c) (w e) = Fin (c + w e)" using pi(2) by simp
      note step = relax_edge_priced[OF gt exact, of q1]
      have "sums_ok g1" using i1 by (simp add: dijkstra_inv_def)
      then have nni: "cost_at g1 (edge_end e) \<noteq> NInf" using vn by (simp add: sums_ok_def)
      show ?thesis
      proof (cases "cost_le (cost_at g1 (edge_end e)) (c + w e)")
        case True
        then have "st' = (g1, q1, w e)" using r step st nni by (simp add: cost_less_iff)
        moreover have "dijkstra_inv g0 ok w s t its g1 q1 rem"
          using i1 wf x1 d1 e True by (rule inv_skip)
        ultimately show ?thesis using sub x1 d1 by (simp add: J_def)
      next
        case False
        then have st': "st' = (set_parent g1 (edge_end e) e (c + w e) (w e),
                              q1 @ [(Fin (c + w e), edge_end e)], w e)"
          using r step st nni by (simp add: cost_less_iff)
        note n = inv_relax[OF i1 wf x1 d1 c0 e \<open>ok e\<close> we False, of "w e"]
        show ?thesis using sub n x1 by (simp add: J_def st')
      qed
    qed
  qed
  then show ?thesis by (simp add: J_def)
qed

subsection \<open>The while loop returns\<close>

lemma search_loop_total:
  assumes I0: "I its g q tc"
    and stale: "\<And>its g q tc. I its g q tc \<Longrightarrow> q \<noteq> [] \<Longrightarrow> its < max_iterations rp \<Longrightarrow>
        fst (popped rp q) \<noteq> integrated_cost (search_state (g ! snd (popped rp q))) \<Longrightarrow>
        I (its + 1) g (rest rp q) tc"
    and expand: "\<And>its g q tc. I its g q tc \<Longrightarrow> q \<noteq> [] \<Longrightarrow> its < max_iterations rp \<Longrightarrow>
        fst (popped rp q) = integrated_cost (search_state (g ! snd (popped rp q))) \<Longrightarrow>
        \<not> isGoal gid (g ! snd (popped rp q)) \<Longrightarrow>
        \<exists>g' q' tc'. expand_edges rp gid bl (fst (popped rp q)) (neighbors (g ! snd (popped rp q)))
            (g, rest rp q, tc) = Inr (g', q', tc') \<and> I (its + 1) g' q' tc'"
  shows "\<exists>r. search_loop rp gid bl its (g, q, tc) = Inr r"
  using I0 stale expand
proof (induction rp gid bl its "(g, q, tc)" arbitrary: g q tc rule: search_loop.induct)
  case (1 rp gid bl its g q tc)
  note IH = "1.hyps"[folded popped_def rest_def] and I = "1.prems"(1)
    and stale = "1.prems"(2) and expand = "1.prems"(3)
  note eq = search_loop.simps[of rp gid bl its g q tc, folded popped_def rest_def]
  show ?case
  proof (cases "q \<noteq> [] \<and> its < max_iterations rp")
    case False
    then have "search_loop rp gid bl its (g, q, tc) = Inr (its, g, q, tc)"
      by (subst eq) (rule if_not_P)
    then show ?thesis by blast
  next
    case True
    note run = this
    show ?thesis
    proof (cases "fst (popped rp q) \<noteq> integrated_cost (search_state (g ! snd (popped rp q)))")
      case True
      have I1: "I (its + 1) g (rest rp q) tc" using stale[OF I _ _ True] run by simp
      from IH(1)[OF run True I1 stale expand] obtain r where
        r: "search_loop rp gid bl (its + 1) (g, rest rp q, tc) = Inr r" by blast
      have "search_loop rp gid bl its (g, q, tc)
            = search_loop rp gid bl (its + 1) (g, rest rp q, tc)"
        by (subst eq) (use run True in simp)
      then show ?thesis using r by (intro exI[of _ r]) simp
    next
      case False
      note fresh = this
      show ?thesis
      proof (cases "isGoal gid (g ! snd (popped rp q))")
        case True
        have "search_loop rp gid bl its (g, q, tc) = Inr (its + 1, g, rest rp q, tc)"
          by (subst eq) (use run fresh True in simp)
        then show ?thesis by blast
      next
        case False
        from fresh have f: "fst (popped rp q) = integrated_cost (search_state (g ! snd (popped rp q)))"
          by simp
        from expand[OF I _ _ f False] run obtain g1 q1 tc1 where
          ex: "expand_edges rp gid bl (fst (popped rp q)) (neighbors (g ! snd (popped rp q)))
                 (g, rest rp q, tc) = Inr (g1, q1, tc1)"
          and I1: "I (its + 1) g1 q1 tc1" by auto
        from IH(2)[OF run fresh False ex I1 stale expand] obtain r where
          r: "search_loop rp gid bl (its + 1) (g1, q1, tc1) = Inr r" by blast
        have "search_loop rp gid bl its (g, q, tc)
              = search_loop rp gid bl (its + 1) (g1, q1, tc1)"
          by (subst eq) (use run fresh False ex in simp)
        then show ?thesis using r by (intro exI[of _ r]) simp
      qed
    qed
  qed
qed

subsection \<open>The state at the start of the search\<close>

lemma num_edges_sum: "(\<Sum>b < length g. length (neighbors (g ! b))) = num_edges g"
proof -
  have "num_edges g = sum_list (map (\<lambda>n. length (neighbors n)) g)"
    by (simp add: num_edges_def length_concat comp_def)
  also have "\<dots> = (\<Sum>b = 0..<length g. length (neighbors (g ! b)))"
    by (simp add: sum_list_sum_nth)
  finally show ?thesis by (simp add: atLeast0LessThan)
qed

lemma init_state:
  assumes s: "s < length graph"
  defines "g1 \<equiv> (resetSearchStates graph)[s := (resetSearchStates graph ! s)
      \<lparr>search_state := (search_state (resetSearchStates graph ! s))\<lparr>integrated_cost := Fin 0\<rparr>\<rparr>]"
  shows "topology g1 = topology graph"
    and "\<And>u. u < length graph \<Longrightarrow> cost_at g1 u = (if u = s then Fin 0 else PInf)"
    and "\<And>u. u < length graph \<Longrightarrow> parent g1 u = None"
proof -
  show "topology g1 = topology graph"
    unfolding g1_def by (simp add: topology_search_state topology_reset)
  show "cost_at g1 u = (if u = s then Fin 0 else PInf)" if "u < length graph" for u
    using that s by (simp add: g1_def cost_at_def resetSearchStates_def reset_def nth_list_update)
  show "parent g1 u = None" if "u < length graph" for u
    using that s by (simp add: g1_def parent_def resetSearchStates_def reset_def nth_list_update)
qed

lemma init_inv:
  assumes s: "s < length graph" and top: "topology g1 = topology graph"
    and c: "\<And>u. u < length graph \<Longrightarrow> cost_at g1 u = (if u = s then Fin 0 else PInf)"
    and p: "\<And>u. u < length graph \<Longrightarrow> parent g1 u = None"
  shows "dijkstra_inv graph ok w s t 0 g1 [(Fin 0, s)] []"
proof -
  let ?T = "traversable ok graph"
  have len: "length g1 = length graph" using top by (rule topology_length)
  have E: "expanded g1 [(Fin 0, s)] = {}"
    using c len by (auto simp: expanded_def split: if_splits)
  have "cost_at g1 s = Fin 0" using c s by simp
  moreover have "queue_ok g1 [(Fin 0, s)]" using c s len by (simp add: queue_ok_def)
  moreover have "realised ?T w s g1"
    unfolding realised_def length_traversable
  proof (intro allI impI)
    fix u cu assume "u < length graph" and "cost_at g1 u = Fin cu"
    then have "u = s \<and> cu = 0" using c by (auto split: if_splits)
    then have "is_path ?T s [] u \<and> path_cost w [] = cu" by (simp add: path_cost_def)
    then show "\<exists>es. is_path ?T s es u \<and> path_cost w es = cu" by blast
  qed
  moreover have "expanded_opt ?T w s g1 [(Fin 0, s)]" by (simp add: expanded_opt_def E)
  moreover have "relaxed ?T w g1 [(Fin 0, s)] []" by (simp add: relaxed_def E)
  moreover have "parents_ok ?T w s g1 [(Fin 0, s)]"
    using c p by (simp add: parents_ok_def length_traversable)
  moreover have "count_ok graph 0 g1 [(Fin 0, s)] 0"
  proof -
    have "{b. b < length graph \<and> b \<notin> expanded g1 [(Fin 0, s)]} = {..<length graph}"
      unfolding E by auto
    then show ?thesis by (simp add: count_ok_def)
  qed
  moreover have "sums_ok g1" using c len by (simp add: sums_ok_def)
  moreover have "ranked g1" unfolding ranked_def using p len by simp
  ultimately show ?thesis using top E by (simp add: dijkstra_inv_def)
qed

subsection \<open>The search finds the lowest cost of the goal\<close>

lemma traversal_optimal:
  assumes wf: "well_formed graph"
    and ids: "\<And>i. i < length graph \<Longrightarrow> nodeid (graph ! i) = nodeid (graph ! t) \<Longrightarrow> i = t"
    and lf: "lowest_first (queue_top rp)" and q0: "queue rp = []"
    and s: "s < length graph" and t: "t < length graph" and st: "s \<noteq> t"
    and pr: "priced rp (nodeid (graph ! t)) graph s ok w"
    and exs: "exact_sums (traversable ok graph) s w"
    and path: "is_path (traversable ok graph) s p t"
    and bound: "int (num_edges graph) + 1 < max_iterations rp"
  shows "\<exists>g q its c. findShortestGraphTraversal rp graph s t [] = (Inr g, [])
           \<and> dijkstra_inv graph ok w s t its g q []
           \<and> cost_at g t = Fin c \<and> optimal (traversable ok graph) w s t c"
proof -
  let ?gid = "nodeid (graph ! t)"
  let ?g0 = "resetSearchStates graph"
  let ?g1 = "?g0[s := (?g0 ! s)\<lparr>search_state := (search_state (?g0 ! s))\<lparr>integrated_cost := Fin 0\<rparr>\<rparr>]"
  let ?T = "traversable ok graph"
  have nn: "\<And>e. reachable_edge ?T s e \<Longrightarrow> 0 \<le> w e" using pr by (rule priced_nonneg)
  define I where "I = (\<lambda>its g q (tc :: real). dijkstra_inv graph ok w s t its g q [])"
  have gid: "nodeid (?g0 ! t) = ?gid" using t by (simp add: resetSearchStates_def)
  have q1: "addNode (Fin 0) s (queue rp) = [(Fin 0, s)]" using q0 by (simp add: addNode_def)
  have I0: "I 0 ?g1 [(Fin 0, s)] 0"
    unfolding I_def using init_inv[OF s init_state[OF s]] by simp
  have stale: "I (its + 1) g (rest rp q) tc"
    if "I its g q tc" "q \<noteq> []" "its < max_iterations rp"
      "fst (popped rp q) \<noteq> integrated_cost (search_state (g ! snd (popped rp q)))"
    for its g q tc
    using that(1,2,4) lf unfolding I_def by (intro inv_stale) (simp_all add: cost_at_def)
  have expand: "\<exists>g' q' tc'.
        expand_edges rp ?gid [] (fst (popped rp q)) (neighbors (g ! snd (popped rp q)))
          (g, rest rp q, tc) = Inr (g', q', tc') \<and> I (its + 1) g' q' tc'"
    if i: "I its g q tc" and ne: "q \<noteq> []" and lt: "its < max_iterations rp"
      and fresh: "fst (popped rp q) = integrated_cost (search_state (g ! snd (popped rp q)))"
      and ng: "\<not> isGoal ?gid (g ! snd (popped rp q))"
    for its g q tc
  proof -
    let ?x = "snd (popped rp q)"
    have inv: "dijkstra_inv graph ok w s t its g q []" using i by (simp add: I_def)
    have top: "topology g = topology graph" using inv by (simp add: dijkstra_inv_def)
    have len: "length g = length graph" using top by (rule topology_length)
    have fr: "cost_at g ?x = fst (popped rp q)" using fresh by (simp add: cost_at_def)
    have xt: "?x \<noteq> t"
    proof
      assume "?x = t"
      then have "nodeid (g ! ?x) = ?gid" using topology_nth(1)[OF top t] by simp
      then show False using ng by (simp add: isGoal_def)
    qed
    from inv_fresh[OF inv nn lf ne fr xt] obtain c where
      pc: "fst (popped rp q) = Fin c" and c0: "0 \<le> c"
      and f1: "dijkstra_inv graph ok w s t (its + 1) g (rest rp q) (neighbors (graph ! ?x))"
      and f2: "?x \<in> expanded g (rest rp q)"
      by blast
    have dx: "cost_at g ?x = Fin c" using fr pc by simp
    have xn: "?x < length graph" using f2 len by (simp add: expanded_def)
    have nb: "neighbors (g ! ?x) = neighbors (graph ! ?x)" using topology_nth(2)[OF top xn] .
    have "realised ?T w s g" using inv by (simp add: dijkstra_inv_def)
    then obtain pi where pi: "is_path ?T s pi ?x"
      using xn dx by (auto simp: realised_def length_traversable)
    have "\<forall>e \<in> set (neighbors (graph ! ?x)). \<forall>g sc.
            \<exists>p. getTraversalCost rp ?gid g e sc [] = Inr p"
    proof (intro ballI allI)
      fix e g sc assume e: "e \<in> set (neighbors (graph ! ?x))"
      show "\<exists>p. getTraversalCost rp ?gid g e sc [] = Inr p"
        using priced_edge(1)[OF pr pi xn e, of g sc] priced_edge(3)[OF pr pi xn e, of g sc]
        by (cases "ok e") auto
    qed
    from expand_edges_total[OF this] obtain r where
      r: "expand_edges rp ?gid [] (Fin c) (neighbors (graph ! ?x)) (g, rest rp q, tc) = Inr r"
      by blast
    obtain g' q' tc' where r': "r = (g', q', tc')" by (metis prod_cases3)
    have "dijkstra_inv graph ok w s t (its + 1) g' q' []"
      using wf pr exs f1 f2 dx c0 r[unfolded r'] by (rule inv_expand)
    then show ?thesis using r r' nb pc by (simp add: I_def)
  qed
  have "\<exists>r. search_loop rp ?gid [] 0 (?g1, [(Fin 0, s)], 0) = Inr r"
  proof (rule search_loop_total[of I])
    show "I 0 ?g1 [(Fin 0, s)] 0" by (rule I0)
  next
    fix its g q tc
    assume "I its g q tc" "q \<noteq> []" "its < max_iterations rp"
      "fst (popped rp q) \<noteq> integrated_cost (search_state (g ! snd (popped rp q)))"
    then show "I (its + 1) g (rest rp q) tc" by (rule stale)
  next
    fix its g q tc
    assume "I its g q tc" "q \<noteq> []" "its < max_iterations rp"
      "fst (popped rp q) = integrated_cost (search_state (g ! snd (popped rp q)))"
      "\<not> isGoal ?gid (g ! snd (popped rp q))"
    then show "\<exists>g' q' tc'.
        expand_edges rp ?gid [] (fst (popped rp q)) (neighbors (g ! snd (popped rp q)))
          (g, rest rp q, tc) = Inr (g', q', tc') \<and> I (its + 1) g' q' tc'"
      by (rule expand)
  qed
  then obtain r where
    r: "search_loop rp ?gid [] 0 (?g1, [(Fin 0, s)], 0) = Inr r" by blast
  obtain its' g' q' tc' where r': "r = (its', g', q', tc')" by (metis prod_cases4)
  have "\<exists>its0 q0. I its0 g' q0 tc' \<and>
     ((its0 = its' \<and> q0 = q' \<and> (q' = [] \<or> max_iterations rp \<le> its'))
      \<or> (its' = its0 + 1 \<and> q0 \<noteq> [] \<and> its0 < max_iterations rp \<and> q' = rest rp q0
          \<and> fst (popped rp q0) = integrated_cost (search_state (g' ! snd (popped rp q0)))
          \<and> isGoal ?gid (g' ! snd (popped rp q0))))"
  proof (rule search_loop_rule[OF r[unfolded r'], of I])
    show "I 0 ?g1 [(Fin 0, s)] 0" by (rule I0)
  next
    fix its g q tc
    assume "I its g q tc" "q \<noteq> []" "its < max_iterations rp"
      "fst (popped rp q) \<noteq> integrated_cost (search_state (g ! snd (popped rp q)))"
    then show "I (its + 1) g (rest rp q) tc" by (rule stale)
  next
    fix its g q tc g2 q2 tc2
    assume a: "I its g q tc" "q \<noteq> []" "its < max_iterations rp"
      "fst (popped rp q) = integrated_cost (search_state (g ! snd (popped rp q)))"
      "\<not> isGoal ?gid (g ! snd (popped rp q))"
      and e: "expand_edges rp ?gid [] (fst (popped rp q)) (neighbors (g ! snd (popped rp q)))
          (g, rest rp q, tc) = Inr (g2, q2, tc2)"
    from expand[OF a] e show "I (its + 1) g2 q2 tc2" by auto
  qed
  then obtain its0 qa where i0: "I its0 g' qa tc'"
    and ex: "(its0 = its' \<and> qa = q' \<and> (q' = [] \<or> max_iterations rp \<le> its'))
      \<or> (its' = its0 + 1 \<and> qa \<noteq> [] \<and> its0 < max_iterations rp \<and> q' = rest rp qa
          \<and> fst (popped rp qa) = integrated_cost (search_state (g' ! snd (popped rp qa)))
          \<and> isGoal ?gid (g' ! snd (popped rp qa)))"
    by blast
  have inv: "dijkstra_inv graph ok w s t its0 g' qa []" using i0 by (simp add: I_def)
  have top: "topology g' = topology graph" using inv by (simp add: dijkstra_inv_def)
  have len: "length g' = length graph" using top by (rule topology_length)
  have s0: "cost_at g' s = Fin 0" using inv by (simp add: dijkstra_inv_def)
  have lenT: "length g' = length ?T" using len by (simp add: length_traversable)
  have rel: "relaxed ?T w g' qa []" using inv by (simp add: dijkstra_inv_def)
  have qok: "queue_ok g' qa" using inv by (simp add: dijkstra_inv_def)
  have tn: "t \<notin> expanded g' qa" using inv by (simp add: dijkstra_inv_def)
  have cnt: "its0 + int (length qa) \<le> 1 + int (num_edges graph)"
  proof -
    have "count_ok graph its0 g' qa 0" using inv by (simp add: dijkstra_inv_def)
    then show ?thesis unfolding count_ok_def num_edges_sum by linarith
  qed
  from ex show ?thesis
  proof
    assume a: "its0 = its' \<and> qa = q' \<and> (q' = [] \<or> max_iterations rp \<le> its')"
    then have "qa = []" using cnt bound by auto
    then have "cost_le (cost_at g' t) (path_cost w p)"
      using path_bound[OF lenT s0 rel nn path] by simp
    then obtain c where "cost_at g' t = Fin c" by (auto simp: cost_le_Fin)
    then have "t \<in> expanded g' qa" using t len \<open>qa = []\<close> by (simp add: expanded_def)
    then show ?thesis using tn by simp
  next
    assume b: "its' = its0 + 1 \<and> qa \<noteq> [] \<and> its0 < max_iterations rp \<and> q' = rest rp qa
          \<and> fst (popped rp qa) = integrated_cost (search_state (g' ! snd (popped rp qa)))
          \<and> isGoal ?gid (g' ! snd (popped rp qa))"
    let ?x = "snd (popped rp qa)"
    have ne: "qa \<noteq> []" using b by simp
    have pin: "popped rp qa \<in> set qa" using lf ne by (rule popped_in_queue)
    then obtain c where pc: "fst (popped rp qa) = Fin c" and xn: "?x < length graph"
      using qok len by (auto simp: queue_ok_def)
    have fr: "cost_at g' ?x = Fin c" using b pc by (simp add: cost_at_def)
    have "nodeid (g' ! ?x) = ?gid" using b by (simp add: isGoal_def)
    then have "nodeid (graph ! ?x) = nodeid (graph ! t)" using topology_nth(1)[OF top xn] by simp
    then have xt: "?x = t" using xn by (rule ids[rotated])
    have opt: "optimal ?T w s t c"
      using pop_optimal[OF lenT s0 rel nn lf fr pc] xt by simp
    have "length qa \<ge> 1" using ne by (cases qa) simp_all
    then have "its' < max_iterations rp" using b cnt bound by linarith
    then have "findShortestGraphTraversal rp graph s t [] = (Inr g', [])"
      unfolding findShortestGraphTraversal_def Let_def gid q1 using r r'
      by (simp add: clearQueue_def)
    then show ?thesis using inv fr xt opt by blast
  qed
qed

subsection \<open>Backtracking\<close>

lemma backtrack_chain:
  assumes po: "parents_ok g0 w s gF q" and len: "length gF = length g0"
    and rk: "\<And>u e. u < length g0 \<Longrightarrow> parent gF u = Some e \<Longrightarrow> rank (edge_start e) < rank u"
    and s0: "cost_at gF s = Fin 0"
    and t: "t < length g0" and ct: "cost_at gF t = Fin ct"
  shows "u < length g0 \<Longrightarrow> cost_at gF u = Fin cu \<Longrightarrow> rank u \<le> (rank t :: nat) \<Longrightarrow>
     \<exists>gE p. backtrack t (gF[t := (gF ! t)\<lparr>search_state := (search_state (gF ! t))
                 \<lparr>parent_edge := parent gF u\<rparr>\<rparr>]) acc = Some (gE, acc @ rev p)
        \<and> is_path g0 s p u \<and> path_cost w p = cu \<and> cost_at gE t = Fin ct"
proof (induction "rank u" arbitrary: u cu acc rule: less_induct)
  case less
  let ?G = "\<lambda>pe. gF[t := (gF ! t)\<lparr>search_state := (search_state (gF ! t))\<lparr>parent_edge := pe\<rparr>\<rparr>]"
  have tl: "t < length gF" using t len by simp
  have pt: "\<And>pe. parent_edge (search_state (?G pe ! t)) = pe" using tl by simp
  have ctG: "\<And>pe. cost_at (?G pe) t = Fin ct" using tl ct by (simp add: cost_at_def)
  note u = less.prems(1) and cu = less.prems(2) and le = less.prems(3)
  from po u have p1: "parent gF u = None \<longleftrightarrow> cost_at gF u = PInf \<or> u = s"
    and p2: "\<And>e. parent gF u = Some e \<Longrightarrow> edge_end e = u \<and> edge_start e \<in> expanded gF q
          \<and> e \<in> set (neighbors (g0 ! edge_start e))
          \<and> (\<exists>c. cost_at gF (edge_start e) = Fin c \<and> cost_at gF u = Fin (c + w e))"
    by (simp_all add: parents_ok_def)
  show ?case
  proof (cases "parent gF u")
    case None
    then have us: "u = s" using p1 cu by simp
    then have "cu = 0" using cu s0 by simp
    moreover have "backtrack t (?G (parent gF u)) acc = Some (?G (parent gF u), acc)"
      by (subst backtrack.simps) (simp add: pt None)
    ultimately have "backtrack t (?G (parent gF u)) acc = Some (?G (parent gF u), acc @ rev [])
        \<and> is_path g0 s [] u \<and> path_cost w [] = cu \<and> cost_at (?G (parent gF u)) t = Fin ct"
      using us ctG by (simp add: path_cost_def)
    then show ?thesis by blast
  next
    case (Some e)
    let ?x = "edge_start e"
    from p2[OF Some] obtain cx where e: "edge_end e = u" and xe: "?x \<in> expanded gF q"
      and en: "e \<in> set (neighbors (g0 ! ?x))"
      and cx: "cost_at gF ?x = Fin cx" and cue: "cost_at gF u = Fin (cx + w e)"
      by blast
    have xn: "?x < length g0" using xe len by (simp add: expanded_def)
    have cu': "cu = cx + w e" using cu cue by simp
    have lt: "rank ?x < rank u" using u Some by (rule rk)
    then have xt: "?x \<noteq> t" using le by auto
    have step: "backtrack t (?G (parent gF u)) acc = backtrack t (?G (parent gF ?x)) (acc @ [e])"
      by (subst backtrack.simps) (simp add: pt Some[unfolded parent_def] xt xt[symmetric] tl parent_def)
    have "rank ?x \<le> rank t" using lt le by simp
    from less.hyps[OF lt xn cx this, of "acc @ [e]"] obtain gE p where
      b: "backtrack t (?G (parent gF ?x)) (acc @ [e]) = Some (gE, (acc @ [e]) @ rev p)"
      and pp: "is_path g0 s p ?x" and pc: "path_cost w p = cx" and ce: "cost_at gE t = Fin ct"
      by blast
    have "backtrack t (?G (parent gF u)) acc = Some (gE, acc @ rev (p @ [e]))"
      using step b by simp
    moreover have "is_path g0 s (p @ [e]) u" using pp xn en e by (auto simp: is_path_snoc)
    moreover have "path_cost w (p @ [e]) = cu" using pc cu' by (simp add: path_cost_snoc)
    ultimately show ?thesis using ce by blast
  qed
qed

subsection \<open>Graphs priced by their static costs\<close>

lemma static_priced:
  assumes "\<forall>n \<in> set g. \<forall>e \<in> set (neighbors n).
     (\<not> overridable (edge_cost e) \<or> numPlugins (edge_scorer rp) = 0) \<and> 0 < cost (edge_cost e)"
  shows "priced rp gid g s (\<lambda>e. True) static_price"
  unfolding priced_def
proof (intro allI impI)
  fix u es e sc
  assume "is_path (traversable (\<lambda>e. True) g) s es u \<and> u < length g \<and> e \<in> set (neighbors (g ! u))"
  then have "g ! u \<in> set g" and "e \<in> set (neighbors (g ! u))" by simp_all
  then have "(\<not> overridable (edge_cost e) \<or> numPlugins (edge_scorer rp) = 0)
      \<and> 0 < cost (edge_cost e)" using assms by blast
  then show "if True then 0 \<le> static_price e
        \<and> getTraversalCost rp gid g e sc [] = Inr (True, static_price e)
      else (\<exists>sc'. getTraversalCost rp gid g e sc [] = Inr (False, sc'))"
    by (auto simp: static_price_def getTraversalCost_def)
qed

text \<open>
  Prices that are whole numbers give exact sums, if every node with an edge has a path
  from the start so cheap that its cost and the price of the edge stay below \<open>2 ^ 24\<close>.
\<close>

lemma path_cost_nat:
  assumes "\<forall>n \<in> set g. \<forall>e \<in> set (neighbors n). w e \<in> \<nat>"
  shows "is_path g u es v \<Longrightarrow> path_cost w es \<in> \<nat>"
proof (induction es arbitrary: u)
  case Nil
  then show ?case by (simp add: path_cost_def)
next
  case (Cons e es)
  have "g ! u \<in> set g" using Cons.prems by simp
  then have "w e \<in> \<nat>" using assms Cons.prems by auto
  have "is_path g (edge_end e) es v" using Cons.prems by simp
  then have "path_cost w es \<in> \<nat>" by (rule Cons.IH)
  then show ?case using \<open>w e \<in> \<nat>\<close> by (simp add: path_cost_def Nats_add)
qed

lemma exact_sums_whole_numbers:
  assumes nat: "\<forall>n \<in> set g. \<forall>e \<in> set (neighbors n). w e \<in> \<nat>"
    and small: "\<And>u e. u < length g \<Longrightarrow> e \<in> set (neighbors (g ! u)) \<Longrightarrow>
        \<exists>p. is_path g s p u \<and> path_cost w p + w e < 16777216"
  shows "exact_sums g s w"
  unfolding exact_sums_def
proof (intro allI impI)
  fix u es e
  assume a: "is_path g s es u \<and> optimal g w s u (path_cost w es)
          \<and> u < length g \<and> e \<in> set (neighbors (g ! u))"
  from small[of u e] a obtain p where p: "is_path g s p u" "path_cost w p + w e < 16777216"
    by blast
  have le: "path_cost w es \<le> path_cost w p" using a p(1) by (simp add: optimal_def)
  have "g ! u \<in> set g" using a by simp
  then have "w e \<in> \<nat>" using nat a by blast
  moreover have "path_cost w es \<in> \<nat>" using path_cost_nat[OF nat] a by blast
  ultimately have "path_cost w es + w e \<in> \<nat>" by (simp add: Nats_add)
  then obtain n :: nat where n: "path_cost w es + w e = real n" by (auto simp: Nats_def)
  have "real n < 16777216" using n le p(2) by linarith
  then have "\<bar>int n\<bar> < 16777216" by simp
  moreover have "path_cost w es + w e = of_int (int n)" using n by simp
  ultimately show "float_add (Fin (path_cost w es)) (w e) = Fin (path_cost w es + w e)"
    by (rule float_add_int[rotated])
qed

subsection \<open>Sums of the example with large costs\<close>

lemma float_round_2_24: "float_round 16777216 = Fin 16777216"
  using float_round_exact[of 16777216 8388608 1] by simp

lemma float_round_2_24_2: "float_round 16777218 = Fin 16777218"
  using float_round_exact[of 16777218 8388609 1] by simp

text \<open>
  Claim C1, as stated, promises a route of lowest cost for every non-empty graph with a
  path from the start to the goal, no closures, no penalties and no blocked ids. Seven
  searches on such graphs stand against it.
  \<^item> The iteration bound: with a bound of one iteration the search on the graph of two
    nodes is left before the goal is popped and raises the timeout error.
  \<^item> The check of the static cost: an edge of static cost zero in the vector of the start
    node raises the invalid-graph error, although the edge before it leads to the goal.
    The exception leaves the two elements scheduled so far in the schedule of the
    planner.
  \<^item> The schedule left behind: with these two elements in the schedule and a bound of
    five iterations, the search on the graph of three nodes raises the timeout error; a
    planner with an empty schedule finds the route within that bound (the witness
    below).
  \<^item> Rounding: on the chain of five nodes each sum \<open>2 ^ 24 + 1\<close> is rounded to \<open>2 ^ 24\<close>,
    so the chain is returned at the cost \<open>2 ^ 24\<close>, while its edges sum up to
    \<open>2 ^ 24 + 3\<close> and the direct edge costs \<open>2 ^ 24 + 2\<close>.
  \<^item> A negative cost, which the pricing accepts: the search stops when the goal is popped
    at the cost 3 of the direct edge, before the way round of cost 2 is found.
  \<^item> The start is the goal: the empty path leads from the start to the goal, but the goal
    has no parent edge and the search raises the no-route error.
  \<^item> Two nodes with the id of the goal: the search stops at the first of them, and the
    goal behind it has no parent edge.
\<close>

theorem findRoute_not_always_lowest_cost:
  "is_path (two_nodes 1) 0 [static_edge 10 0 1 1] 1
   \<and> findRoute (configure 1 no_plugins first_min) (two_nodes 1) 0 1 []
        = Some (Inl TimedOut, configure 1 no_plugins first_min)
   \<and> is_path zero_cost_third_edge 0 [static_edge 10 0 1 1] 1
   \<and> findRoute (configure 5 no_plugins first_min) zero_cost_third_edge 0 1 []
        = Some (Inl NoValidGraph,
                (configure 5 no_plugins first_min)\<lparr>queue := [(Fin 1, 1), (Fin 1, 2)]\<rparr>)
   \<and> is_path three_nodes 0 [static_edge 12 0 2 5] 2
   \<and> findRoute ((configure 5 no_plugins first_min)\<lparr>queue := [(Fin 1, 1), (Fin 1, 2)]\<rparr>)
          three_nodes 0 2 []
        = Some (Inl TimedOut, configure 5 no_plugins first_min)
   \<and> findRoute (configure 0 no_plugins first_min) long_chain 0 4 []
        = Some (Inr \<lparr>start_node = 0,
                      edges = [static_edge 10 0 1 16777216, static_edge 11 1 2 1,
                               static_edge 12 2 3 1, static_edge 13 3 4 1],
                      route_cost = Fin 16777216\<rparr>, configure 0 no_plugins first_min)
   \<and> path_cost static_price [static_edge 10 0 1 16777216, static_edge 11 1 2 1,
                              static_edge 12 2 3 1, static_edge 13 3 4 1] = 16777219
   \<and> is_path long_chain 0 [static_edge 14 0 4 16777218] 4
   \<and> path_cost static_price [static_edge 14 0 4 16777218] = 16777218
   \<and> findRoute (configure 0 no_plugins first_min) negative_detour 0 1 []
        = Some (Inr \<lparr>start_node = 0, edges = [static_edge 10 0 1 3], route_cost = Fin 3\<rparr>,
                configure 0 no_plugins first_min)
   \<and> is_path negative_detour 0 [static_edge 11 0 2 4, static_edge 12 2 1 (- 2)] 1
   \<and> path_cost static_price [static_edge 11 0 2 4, static_edge 12 2 1 (- 2)] = 2
   \<and> is_path (two_nodes 1) 0 [] 0
   \<and> findRoute (configure 0 no_plugins first_min) (two_nodes 1) 0 0 []
        = Some (Inl NoValidRouteCouldBeFound, configure 0 no_plugins first_min)
   \<and> is_path twin_ids 0 [static_edge 10 0 1 1, static_edge 11 1 2 1] 2
   \<and> findRoute (configure 0 no_plugins first_min) twin_ids 0 2 []
        = Some (Inl NoValidRouteCouldBeFound, configure 0 no_plugins first_min)"
proof -
  have "findRoute (configure 1 no_plugins first_min) (two_nodes 1) 0 1 []
        = Some (Inl TimedOut, configure 1 no_plugins first_min)"
    by (simp add: planner_defs two_nodes_def)
  moreover have "findRoute (configure 5 no_plugins first_min) zero_cost_third_edge 0 1 []
        = Some (Inl NoValidGraph,
                (configure 5 no_plugins first_min)\<lparr>queue := [(Fin 1, 1), (Fin 1, 2)]\<rparr>)"
    by (simp add: planner_defs zero_cost_third_edge_def)
  moreover have "findRoute ((configure 5 no_plugins first_min)\<lparr>queue := [(Fin 1, 1), (Fin 1, 2)]\<rparr>)
          three_nodes 0 2 []
        = Some (Inl TimedOut, configure 5 no_plugins first_min)"
    by (simp add: planner_defs three_nodes_def)
  moreover have "findRoute (configure 0 no_plugins first_min) long_chain 0 4 []
        = Some (Inr \<lparr>start_node = 0,
                      edges = [static_edge 10 0 1 16777216, static_edge 11 1 2 1,
                               static_edge 12 2 3 1, static_edge 13 3 4 1],
                      route_cost = Fin 16777216\<rparr>, configure 0 no_plugins first_min)"
    by (simp add: planner_defs long_chain_def float_round_2_24 float_round_2_24_2
          float_round_absorbs)
  moreover have "findRoute (configure 0 no_plugins first_min) negative_detour 0 1 []
        = Some (Inr \<lparr>start_node = 0, edges = [static_edge 10 0 1 3], route_cost = Fin 3\<rparr>,
                configure 0 no_plugins first_min)"
    by (simp add: planner_defs negative_detour_def)
  moreover have "findRoute (configure 0 no_plugins first_min) (two_nodes 1) 0 0 []
        = Some (Inl NoValidRouteCouldBeFound, configure 0 no_plugins first_min)"
    by (simp add: planner_defs two_nodes_def)
  moreover have "findRoute (configure 0 no_plugins first_min) twin_ids 0 2 []
        = Some (Inl NoValidRouteCouldBeFound, configure 0 no_plugins first_min)"
    by (simp add: planner_defs twin_ids_def)
  moreover have "is_path (two_nodes 1) 0 [static_edge 10 0 1 1] 1"
    "is_path zero_cost_third_edge 0 [static_edge 10 0 1 1] 1"
    "is_path three_nodes 0 [static_edge 12 0 2 5] 2"
    "is_path long_chain 0 [static_edge 14 0 4 16777218] 4"
    "is_path negative_detour 0 [static_edge 11 0 2 4, static_edge 12 2 1 (- 2)] 1"
    "is_path (two_nodes 1) 0 [] 0"
    "is_path twin_ids 0 [static_edge 10 0 1 1, static_edge 11 1 2 1] 2"
    by (simp_all add: two_nodes_def zero_cost_third_edge_def three_nodes_def long_chain_def
          negative_detour_def twin_ids_def plain_node_def static_edge_def)
  moreover have "path_cost static_price [static_edge 10 0 1 16777216, static_edge 11 1 2 1,
                              static_edge 12 2 3 1, static_edge 13 3 4 1] = 16777219"
    "path_cost static_price [static_edge 14 0 4 16777218] = 16777218"
    "path_cost static_price [static_edge 11 0 2 4, static_edge 12 2 1 (- 2)] = 2"
    by (simp_all add: path_cost_def static_price_def static_edge_def)
  ultimately show ?thesis by blast
qed

text \<open>
  Claim C1, amended. Let the graph be well formed, the start different from the goal, and
  the goal the only node with its id. Let the queue pop a lowest element and the schedule
  of the planner be empty when the search begins. Let every edge that the search can meet
  be priced in one way whatever the score before the call: either as not valid, or as
  valid (\<open>ok e\<close>) at a cost \<open>w e\<close> that is not negative; a traversable path is a path of
  valid edges. Let the sums of the search be exact: the float sum of the lowest cost of a
  node and the price of a valid edge leaving it is their sum. Let the iteration bound
  exceed the number of edges plus one. If there is a traversable path from the start to
  the goal, then \<open>findRoute\<close> with no blocked ids returns a route and leaves the planner
  as it was; the edges of the route are a traversable path from the start to the goal,
  its cost is the sum of the prices of its edges, and no traversable path from the start
  to the goal costs less.
\<close>

theorem findRoute_lowest_cost:
  assumes wf: "well_formed graph"
    and ids: "\<forall>i < length graph. nodeid (graph ! i) = nodeid (graph ! goal) \<longrightarrow> i = goal"
    and lf: "lowest_first (queue_top rp)" and q0: "queue rp = []"
    and s: "start < length graph" and t: "goal < length graph" and st: "start \<noteq> goal"
    and pr: "priced rp (nodeid (graph ! goal)) graph start ok w"
    and exs: "exact_sums (traversable ok graph) start w"
    and path: "is_path (traversable ok graph) start p goal"
    and bound: "int (num_edges graph) + 1 < max_iterations rp"
  shows "\<exists>route. findRoute rp graph start goal [] = Some (Inr route, rp)
           \<and> start_node route = start
           \<and> is_path (traversable ok graph) start (edges route) goal
           \<and> route_cost route = Fin (path_cost w (edges route))
           \<and> (\<forall>p'. is_path (traversable ok graph) start p' goal
                  \<longrightarrow> path_cost w (edges route) \<le> path_cost w p')"
proof -
  let ?T = "traversable ok graph"
  have ids': "\<And>i. i < length graph \<Longrightarrow> nodeid (graph ! i) = nodeid (graph ! goal) \<Longrightarrow> i = goal"
    using ids by blast
  from traversal_optimal[OF wf ids' lf q0 s t st pr exs path bound] obtain g q its c where
    trav: "findShortestGraphTraversal rp graph start goal [] = (Inr g, [])"
    and inv: "dijkstra_inv graph ok w start goal its g q []"
    and c: "cost_at g goal = Fin c" and opt: "optimal ?T w start goal c"
    by blast
  have top: "topology g = topology graph" using inv by (simp add: dijkstra_inv_def)
  have len: "length g = length ?T" using topology_length[OF top] by (simp add: length_traversable)
  have tT: "goal < length ?T" using t by (simp add: length_traversable)
  have po: "parents_ok ?T w start g q" using inv by (simp add: dijkstra_inv_def)
  have s0: "cost_at g start = Fin 0" using inv by (simp add: dijkstra_inv_def)
  have "ranked g" using inv by (simp add: dijkstra_inv_def)
  then obtain rank :: "nat \<Rightarrow> nat" where
    rk: "\<And>u e. u < length ?T \<Longrightarrow> parent g u = Some e \<Longrightarrow> rank (edge_start e) < rank u"
    unfolding ranked_def len by blast
  have "parent g goal \<noteq> None" using po tT c st by (simp add: parents_ok_def)
  then have pe: "parent_edge (search_state (g ! goal)) \<noteq> None" by (simp add: parent_def)
  have same: "g[goal := (g ! goal)\<lparr>search_state := (search_state (g ! goal))
                 \<lparr>parent_edge := parent g goal\<rparr>\<rparr>] = g"
    by (simp add: parent_def list_update_same_conv)
  from backtrack_chain[where rank = rank and acc = "[]", OF po len rk s0 tT c tT c order_refl]
  obtain gE pth where b: "backtrack goal g [] = Some (gE, rev pth)"
    and pp: "is_path ?T start pth goal" and pc: "path_cost w pth = c"
    and ce: "cost_at gE goal = Fin c"
    unfolding same by auto
  let ?route = "\<lparr>start_node = start, edges = pth, route_cost = Fin c\<rparr>"
  have "graph \<noteq> []" using s by auto
  moreover have "rp\<lparr>queue := []\<rparr> = rp" using q0 by (cases rp) simp
  ultimately have "findRoute rp graph start goal [] = Some (Inr ?route, rp)"
    using s t trav pe b ce by (simp add: findRoute_def cost_at_def)
  moreover have "\<forall>p'. is_path ?T start p' goal \<longrightarrow> path_cost w pth \<le> path_cost w p'"
    using opt pc by (simp add: optimal_def)
  ultimately show ?thesis using pp pc by (intro exI[of _ ?route]) simp
qed

theorem findRoute_lowest_cost_witness:
  "well_formed three_nodes \<and> distinct (map nodeid three_nodes)
   \<and> lowest_first (queue_top (configure 5 no_plugins first_min))
   \<and> queue (configure 5 no_plugins first_min) = []
   \<and> priced (configure 5 no_plugins first_min) (nodeid (three_nodes ! 2)) three_nodes 0
         (\<lambda>e. True) static_price
   \<and> exact_sums (traversable (\<lambda>e. True) three_nodes) 0 static_price
   \<and> is_path (traversable (\<lambda>e. True) three_nodes) 0 [static_edge 12 0 2 5] 2
   \<and> int (num_edges three_nodes) + 1 < max_iterations (configure 5 no_plugins first_min)
   \<and> findRoute (configure 5 no_plugins first_min) three_nodes 0 2 []
       = Some (Inr \<lparr>start_node = 0, edges = [static_edge 10 0 1 1, static_edge 11 1 2 1],
                      route_cost = Fin 2\<rparr>, configure 5 no_plugins first_min)
   \<and> path_cost static_price [static_edge 10 0 1 1, static_edge 11 1 2 1] = 2
   \<and> path_cost static_price [static_edge 10 0 1 1, static_edge 11 1 2 1]
       \<le> path_cost static_price [static_edge 12 0 2 5]"
proof -
  let ?rp = "configure 5 no_plugins first_min"
  have wf: "well_formed three_nodes"
    by (simp add: well_formed_def three_nodes_def plain_node_def static_edge_def)
  have dist: "distinct (map nodeid three_nodes)"
    by (simp add: three_nodes_def plain_node_def)
  have ids: "\<forall>i < length three_nodes. nodeid (three_nodes ! i) = nodeid (three_nodes ! 2) \<longrightarrow> i = 2"
    by (auto simp: three_nodes_def plain_node_def less_Suc_eq nth_Cons')
  have lf: "lowest_first (queue_top ?rp)"
    by (simp add: configure_def lowest_first_first_min)
  have q0: "queue ?rp = []" by (simp add: configure_def)
  have pr: "priced ?rp (nodeid (three_nodes ! 2)) three_nodes 0 (\<lambda>e. True) static_price"
    by (rule static_priced)
       (simp add: three_nodes_def plain_node_def static_edge_def configure_def no_plugins_def)
  have exs: "exact_sums (traversable (\<lambda>e. True) three_nodes) 0 static_price"
    unfolding traversable_all
  proof (rule exact_sums_whole_numbers)
    show "\<forall>n \<in> set three_nodes. \<forall>e \<in> set (neighbors n). static_price e \<in> \<nat>"
      by (simp add: three_nodes_def plain_node_def static_edge_def static_price_def)
  next
    fix u e assume u: "u < length three_nodes" and e: "e \<in> set (neighbors (three_nodes ! u))"
    have "u = 0 \<or> u = 1 \<or> u = 2" using u by (auto simp: three_nodes_def)
    then show "\<exists>p. is_path three_nodes 0 p u \<and> path_cost static_price p + static_price e < 16777216"
    proof (elim disjE)
      assume "u = 0"
      then have "is_path three_nodes 0 [] u \<and> path_cost static_price [] + static_price e < 16777216"
        using e by (auto simp: three_nodes_def plain_node_def static_edge_def static_price_def
            path_cost_def)
      then show ?thesis by blast
    next
      assume "u = 1"
      then have "is_path three_nodes 0 [static_edge 10 0 1 1] u
          \<and> path_cost static_price [static_edge 10 0 1 1] + static_price e < 16777216"
        using e by (auto simp: three_nodes_def plain_node_def static_edge_def static_price_def
            path_cost_def)
      then show ?thesis by blast
    next
      assume "u = 2"
      then show ?thesis using e by (simp add: three_nodes_def plain_node_def)
    qed
  qed
  have path: "is_path (traversable (\<lambda>e. True) three_nodes) 0 [static_edge 12 0 2 5] 2"
    unfolding traversable_all by (simp add: three_nodes_def plain_node_def static_edge_def)
  have bound: "int (num_edges three_nodes) + 1 < max_iterations ?rp"
    by (simp add: num_edges_def three_nodes_def plain_node_def configure_def)
  have res: "findRoute ?rp three_nodes 0 2 []
       = Some (Inr \<lparr>start_node = 0, edges = [static_edge 10 0 1 1, static_edge 11 1 2 1],
                      route_cost = Fin 2\<rparr>, ?rp)"
    by (simp add: planner_defs three_nodes_def)
  from findRoute_lowest_cost[OF wf ids lf q0 _ _ _ pr exs path bound]
  obtain route where r: "findRoute ?rp three_nodes 0 2 [] = Some (Inr route, ?rp)"
    and c: "route_cost route = Fin (path_cost static_price (edges route))"
    and m: "\<forall>p'. is_path (traversable (\<lambda>e. True) three_nodes) 0 p' 2 \<longrightarrow>
              path_cost static_price (edges route) \<le> path_cost static_price p'"
    by (auto simp: three_nodes_def)
  have route: "route = \<lparr>start_node = 0, edges = [static_edge 10 0 1 1, static_edge 11 1 2 1],
                      route_cost = Fin 2\<rparr>"
    using r res by simp
  have "path_cost static_price [static_edge 10 0 1 1, static_edge 11 1 2 1] = 2"
    using c route by simp
  moreover have "path_cost static_price [static_edge 10 0 1 1, static_edge 11 1 2 1]
       \<le> path_cost static_price [static_edge 12 0 2 5]"
    using m path route by simp
  ultimately show ?thesis using wf dist lf q0 pr exs path bound res by simp
qed

section \<open>The iteration bound\<close>

subsection \<open>A larger bound\<close>








subsection \<open>The search on a star\<close>















end
